theory Spec2Isabelle
  imports Complex_Main "HOL-Library.Word" "HOL-Library.AList"
begin

unbundle bit_operations_syntax

section \<open>JavaScript values used by lib/geocoder/spatialmatch.js\<close>

text \<open>
  Numbers that the source only adds, multiplies and compares (weights, relevances,
  scores) are modelled as \<^typ>\<open>real\<close>. The concrete runs below use weights such as 1,
  0.5 and 0.25, whose sums and comparisons are the same in double arithmetic, and state
  no value that double arithmetic would round differently. Numbers that go through the
  bitwise operators (\<open>mask\<close>, \<open>nmask\<close>) are integers, and \<open>&\<close> and \<open>|\<close> convert both
  operands to signed 32-bit integers first, as ECMAScript's ToInt32 does. Counts and
  positions (\<open>idx\<close>, \<open>tmpid\<close>, the limits) are natural numbers.
\<close>

datatype error = TypeError | ExternalError string

definition js_and :: "int \<Rightarrow> int \<Rightarrow> int" where
  "js_and a b = sint ((word_of_int a :: 32 word) AND word_of_int b)"

definition js_or :: "int \<Rightarrow> int \<Rightarrow> int" where
  "js_or a b = sint ((word_of_int a :: 32 word) OR word_of_int b)"

text \<open>\<open>x || y\<close> on numbers: \<open>x\<close> unless it is zero.\<close>

definition or_else :: "'a::zero \<Rightarrow> 'a \<Rightarrow> 'a" where
  "or_else x y = (if x \<noteq> 0 then x else y)"

text \<open>\<open>Number.prototype.toString(2)\<close> on an integer: a sign and the binary digits of
  the magnitude.\<close>

fun digits2 :: "nat \<Rightarrow> string" where
  "digits2 n = (if n < 2 then [if n = 0 then CHR ''0'' else CHR ''1'']
                else digits2 (n div 2) @ [if n mod 2 = 0 then CHR ''0'' else CHR ''1''])"

declare digits2.simps [simp del]

definition toString2 :: "int \<Rightarrow> string" where
  "toString2 n = (if n < 0 then CHR ''-'' # digits2 (nat (- n)) else digits2 (nat n))"

text \<open>\<open>s.split(1).length - 1\<close>: the number of occurrences of the character \<open>1\<close>.\<close>

definition split1_count :: "string \<Rightarrow> nat" where
  "split1_count s = length (filter (\<lambda>c. c = CHR ''1'') s)"

section \<open>Data model\<close>

text \<open>Modelled from the spec: the constant table \<open>PREFIX_SCAN\<close> of the external cache
  module is not part of the sources; the spec gives \<open>prefix\<close> as an enumeration of
  \<open>disabled\<close> and \<open>enabled\<close>.\<close>

datatype prefix_scan = disabled | enabled

type_synonym address = string

text \<open>A subquery is a token array that carries an \<open>edit_distance\<close> property.\<close>

record subquery =
  tokens :: "string list"
  edit_distance :: nat

text \<open>The fields that the stacking code reads from a match, whether it is a
  phrasematch or an archetype.\<close>

record matchbase =
  mask :: int
  weight :: real
  editMultiplier :: real
  zoom :: int
  idx :: nat
  scorefactor :: real
  proxMatch :: real
  catMatch :: real
  prefix :: prefix_scan

record phrasematch = matchbase +
  subquery :: subquery
  partialNumber :: bool
  radius :: "real option"
  address :: "address option"

record archetype = matchbase +
  exemplars :: "phrasematch list"

text \<open>\<open>bmask\<close> is an array indexed by \<open>idx\<close>; a missing or zero entry is falsy.\<close>

record 'm phrasematchResult =
  phrasematches :: "'m list"
  r_idx :: nat
  nmask :: int
  bmask :: "nat list"

definition bmask_at :: "nat list \<Rightarrow> nat \<Rightarrow> bool" where
  "bmask_at b i = (i < length b \<and> b ! i \<noteq> 0)"

text \<open>An array of matches with the two scalars the source attaches to it.\<close>

record 'm relev_stack =
  elems :: "'m list"
  relev :: real

record 'm stack = "'m relev_stack" +
  adjRelev :: real

section \<open>collapseToArchetypes\<close>

text \<open>Lines 189-237 of lib/geocoder/spatialmatch.js.\<close>

text \<open>The signature string concatenates four printed values with \<open>-\<close>; two signatures
  are equal exactly when the four values are, so the key is modelled as the tuple.\<close>

type_synonym signature = "int \<times> real \<times> real \<times> prefix_scan"

definition signature_of :: "phrasematch \<Rightarrow> signature" where
  "signature_of inMatch = (mask inMatch, weight inMatch, editMultiplier inMatch, prefix inMatch)"

definition new_outMatch :: "nat \<Rightarrow> phrasematch \<Rightarrow> archetype" where
  "new_outMatch result_idx inMatch =
     \<lparr> mask = mask inMatch, weight = weight inMatch,
       editMultiplier = editMultiplier inMatch, zoom = zoom inMatch,
       idx = result_idx, scorefactor = scorefactor inMatch,
       proxMatch = proxMatch inMatch, catMatch = catMatch inMatch,
       prefix = prefix inMatch, exemplars = [] \<rparr>"

text \<open>The inner loop over \<open>inResult.phrasematches\<close>; \<open>uniqMap\<close> is a Map, which keeps
  its keys in insertion order.\<close>

fun group_matches ::
  "nat \<Rightarrow> (signature \<times> archetype) list \<Rightarrow> phrasematch list \<Rightarrow> (signature \<times> archetype) list"
where
  "group_matches result_idx uniqMap [] = uniqMap"
| "group_matches result_idx uniqMap (inMatch # rest) =
     (let outMatch = (case map_of uniqMap (signature_of inMatch) of
                        None \<Rightarrow> new_outMatch result_idx inMatch
                      | Some found \<Rightarrow> found)
      in group_matches result_idx
           (AList.update (signature_of inMatch)
              (outMatch\<lparr>exemplars := exemplars outMatch @ [inMatch]\<rparr>) uniqMap)
           rest)"

definition low_confidence :: "archetype \<Rightarrow> bool" where
  "low_confidence grp \<longleftrightarrow>
     length (tokens (subquery (hd (exemplars grp)))) = 1 \<and>
     edit_distance (subquery (hd (exemplars grp))) = 0 \<and>
     prefix grp \<noteq> disabled \<and>
     length (exemplars grp) > 2"

definition nerf :: "archetype \<Rightarrow> archetype" where
  "nerf grp =
     (if low_confidence grp
      then grp\<lparr>editMultiplier := editMultiplier grp * 0.99\<rparr>
      else grp)"

definition collapseResult :: "phrasematch phrasematchResult \<Rightarrow> archetype phrasematchResult" where
  "collapseResult inResult =
     \<lparr> phrasematches =
         map nerf (map snd (group_matches (r_idx inResult) [] (phrasematches inResult))),
       r_idx = r_idx inResult, nmask = nmask inResult, bmask = bmask inResult \<rparr>"

definition collapseToArchetypes ::
  "phrasematch phrasematchResult list \<Rightarrow> archetype phrasematchResult list"
where
  "collapseToArchetypes phrasematchResults = map collapseResult phrasematchResults"

section \<open>stackable\<close>

text \<open>Lines 346-435.\<close>

record 'm memo =
  stacks :: "'m stack list"
  maxStacks :: "'m stack list"
  maxRelev :: real

text \<open>The admission step on a candidate stack (the block guarded by
  \<open>targetStack.relev > 0.5\<close>).\<close>

definition admit :: "nat \<Rightarrow> 'm memo \<Rightarrow> 'm stack \<Rightarrow> 'm memo" where
  "admit limit memo targetStack =
     (if relev targetStack > 0.5 then
        if relev targetStack > maxRelev memo then
          (if length (maxStacks memo) \<ge> limit
           then memo\<lparr>stacks := maxStacks memo, maxStacks := [targetStack]\<rparr>
           else memo\<lparr>maxStacks := maxStacks memo @ [targetStack]\<rparr>)
          \<lparr>maxRelev := relev targetStack\<rparr>
        else if relev targetStack = maxRelev memo then
          memo\<lparr>maxStacks := maxStacks memo @ [targetStack]\<rparr>
        else if length (maxStacks memo) < limit then
          memo\<lparr>stacks := stacks memo @ [targetStack]\<rparr>
        else memo
      else memo)"

definition direction_gate :: "'a matchbase_scheme list \<Rightarrow> int \<Rightarrow> 'a matchbase_scheme \<Rightarrow> bool" where
  "direction_gate stack msk next \<longleftrightarrow>
     stack \<noteq> [] \<and> idx (hd stack) \<ge> idx next \<and> msk \<noteq> 0 \<and> msk < mask next"

definition targetStack_of ::
  "'a matchbase_scheme list \<Rightarrow> int \<Rightarrow> real \<Rightarrow> real \<Rightarrow> 'a matchbase_scheme
     \<Rightarrow> 'a matchbase_scheme stack"
where
  "targetStack_of stack msk rel adj next =
     \<lparr> elems = (if mask next < msk then next # stack else stack @ [next]),
       relev = rel + weight next,
       adjRelev = adj + weight next * editMultiplier next \<rparr>"

text \<open>
  The recursive frames of \<open>stackable\<close>, with the shared memo passed through and
  returned. \<open>stackable_rec\<close> is one call at level \<open>i\<close>; \<open>stackable_loop\<close> is its loop
  over the phrasematches of that level. \<open>phrasematchResults[idx + 1] !== undefined\<close> is
  \<open>i + 1 < length prs\<close>. A frame is only entered with \<open>i < length prs\<close>: the entry point
  below raises on an empty list and every recursive call is guarded.
\<close>

function stackable_rec ::
    "'a matchbase_scheme phrasematchResult list \<Rightarrow> nat \<Rightarrow> 'a matchbase_scheme memo \<Rightarrow> nat
      \<Rightarrow> int \<Rightarrow> int \<Rightarrow> 'a matchbase_scheme list \<Rightarrow> real \<Rightarrow> real \<Rightarrow> 'a matchbase_scheme memo"
  and stackable_loop ::
    "'a matchbase_scheme phrasematchResult list \<Rightarrow> nat \<Rightarrow> 'a matchbase_scheme memo \<Rightarrow> nat
      \<Rightarrow> int \<Rightarrow> int \<Rightarrow> 'a matchbase_scheme list \<Rightarrow> real \<Rightarrow> real
      \<Rightarrow> 'a matchbase_scheme list \<Rightarrow> 'a matchbase_scheme memo"
where
  "stackable_rec prs limit memo i msk nmsk stack rel adj =
     (if length prs \<le> i then memo
      else
        let memo1 = (if i + 1 < length prs
                     then stackable_rec prs limit memo (i + 1) msk nmsk stack rel adj
                     else memo)
        in if js_and nmsk (nmask (prs ! i)) \<noteq> 0 then memo1
           else if \<exists>s \<in> set stack. bmask_at (bmask (prs ! i)) (idx s) then memo1
           else stackable_loop prs limit memo1 i msk nmsk stack rel adj
                  (phrasematches (prs ! i)))"
| "stackable_loop prs limit memo i msk nmsk stack rel adj [] = memo"
| "stackable_loop prs limit memo i msk nmsk stack rel adj (next # rest) =
     (if js_and msk (mask next) \<noteq> 0 then
        stackable_loop prs limit memo i msk nmsk stack rel adj rest
      else if direction_gate stack msk next then
        stackable_loop prs limit memo i msk nmsk stack rel adj rest
      else
        let targetStack = targetStack_of stack msk rel adj next;
            targetMask = js_or msk (mask next);
            targetNmask = js_or nmsk (nmask (prs ! i));
            memo1 = admit limit memo targetStack;
            memo2 = (if i + 1 < length prs
                     then stackable_rec prs limit memo1 (i + 1) targetMask targetNmask
                            (elems targetStack) (relev targetStack) (adjRelev targetStack)
                     else memo1)
        in stackable_loop prs limit memo2 i msk nmsk stack rel adj rest)"
  by pat_completeness auto
termination
  by (relation "measures
        [\<lambda>a. case a of Inl (prs, _, _, i, _) \<Rightarrow> length prs - i
                      | Inr (prs, _, _, i, _) \<Rightarrow> length prs - i,
         \<lambda>a. case a of Inl (prs, _, _, i, _) \<Rightarrow> Suc (length (phrasematches (prs ! i)))
                      | Inr (_, _, _, _, _, _, _, _, _, pms) \<Rightarrow> length pms]")
     auto

declare stackable_rec.simps [simp del] stackable_loop.simps [simp del]

text \<open>The length penalty of the top frame: \<open>.9 + (.1 / (stack.length || 1))\<close>.\<close>

definition lengthPenalty :: "'m stack \<Rightarrow> real" where
  "lengthPenalty stack = 0.9 + 0.1 / real (or_else (length (elems stack)) 1)"

text \<open>The top call, \<open>stackable(phrasematchResults, limit)\<close>. On an empty list the
  source reads \<open>phrasematchResults[0].nmask\<close> and raises.\<close>

definition stackable ::
  "'a matchbase_scheme phrasematchResult list \<Rightarrow> nat \<Rightarrow> error + 'a matchbase_scheme stack list"
where
  "stackable phrasematchResults limit =
     (if phrasematchResults = [] then Inl TypeError
      else
        let memo = stackable_rec phrasematchResults limit
                     \<lparr> stacks = [], maxStacks = [], maxRelev = 0 \<rparr> 0 0 0 [] 0 0
        in Inr (map (\<lambda>stack. stack\<lparr>adjRelev := adjRelev stack * lengthPenalty stack\<rparr>)
                  (stacks memo @ maxStacks memo)))"

text \<open>The arrays that \<open>stackable\<close> returns, without the scalars attached to them.\<close>

definition stackable_elems ::
  "'a matchbase_scheme phrasematchResult list \<Rightarrow> nat \<Rightarrow> error + 'a matchbase_scheme list list"
where
  "stackable_elems prs limit = map_sum id (map elems) (stackable prs limit)"

section \<open>Predicates on emitted stacks\<close>

text \<open>
  An emitted stack is described together with the level of each of its elements, that
  is, the position in \<open>phrasematchResults\<close> of the result the element was taken from:
  a list of pairs of a level and an element.
\<close>

definition sourced ::
  "'a matchbase_scheme phrasematchResult list \<Rightarrow> (nat \<times> 'a matchbase_scheme) list \<Rightarrow> bool" where
  "sourced prs ps \<longleftrightarrow>
     distinct (map fst ps) \<and>
     (\<forall>p \<in> set ps. fst p < length prs \<and> snd p \<in> set (phrasematches (prs ! fst p)))"

definition masks_disjoint :: "(nat \<times> 'a matchbase_scheme) list \<Rightarrow> bool" where
  "masks_disjoint ps \<longleftrightarrow>
     (\<forall>p \<in> set ps. \<forall>q \<in> set ps. fst p \<noteq> fst q \<longrightarrow> js_and (mask (snd p)) (mask (snd q)) = 0)"

definition nmasks_disjoint ::
  "'a matchbase_scheme phrasematchResult list \<Rightarrow> (nat \<times> 'a matchbase_scheme) list \<Rightarrow> bool" where
  "nmasks_disjoint prs ps \<longleftrightarrow>
     (\<forall>p \<in> set ps. \<forall>q \<in> set ps. fst p \<noteq> fst q \<longrightarrow>
        js_and (nmask (prs ! fst p)) (nmask (prs ! fst q)) = 0)"

definition bmask_clear ::
  "'a matchbase_scheme phrasematchResult list \<Rightarrow> (nat \<times> 'a matchbase_scheme) list \<Rightarrow> bool" where
  "bmask_clear prs ps \<longleftrightarrow>
     (\<forall>p \<in> set ps. \<forall>q \<in> set ps. fst q < fst p \<longrightarrow>
        \<not> bmask_at (bmask (prs ! fst p)) (idx (snd q)))"

definition compatible ::
  "'a matchbase_scheme phrasematchResult list \<Rightarrow> 'a matchbase_scheme list \<Rightarrow> (nat \<times> 'a matchbase_scheme) list \<Rightarrow> bool" where
  "compatible prs stack ps \<longleftrightarrow>
     map snd ps = stack \<and> sourced prs ps \<and> masks_disjoint ps \<and> nmasks_disjoint prs ps \<and>
     bmask_clear prs ps"

text \<open>Every phrasematch carries the idx of its result, and no two results share an
  idx.\<close>

definition idx_by_result :: "'a matchbase_scheme phrasematchResult list \<Rightarrow> bool" where
  "idx_by_result prs \<longleftrightarrow>
     distinct (map r_idx prs) \<and> (\<forall>r \<in> set prs. \<forall>m \<in> set (phrasematches r). idx m = r_idx r)"

text \<open>The bmask relation is the same in both directions: the result of \<open>a\<close> excludes
  the idx of \<open>b\<close> exactly when the result of \<open>b\<close> excludes the idx of \<open>a\<close>.\<close>

definition bmask_symmetric :: "'a matchbase_scheme phrasematchResult list \<Rightarrow> bool" where
  "bmask_symmetric prs \<longleftrightarrow>
     (\<forall>r \<in> set prs. \<forall>r' \<in> set prs.
        \<forall>a \<in> set (phrasematches r). \<forall>b \<in> set (phrasematches r').
          bmask_at (bmask r) (idx b) = bmask_at (bmask r') (idx a))"

text \<open>The invariant of a frame of the recursion, and of the memo.\<close>

definition frame_inv ::
  "'a matchbase_scheme phrasematchResult list \<Rightarrow> nat \<Rightarrow> int \<Rightarrow> int \<Rightarrow> 'a matchbase_scheme list \<Rightarrow> bool" where
  "frame_inv prs i msk nmsk stack \<longleftrightarrow>
     (\<exists>ps. compatible prs stack ps \<and> (\<forall>p \<in> set ps. fst p < i) \<and>
        (\<forall>n. js_and msk n = 0 \<longrightarrow> (\<forall>p \<in> set ps. js_and (mask (snd p)) n = 0)) \<and>
        (\<forall>n. js_and nmsk n = 0 \<longrightarrow> (\<forall>p \<in> set ps. js_and (nmask (prs ! fst p)) n = 0)))"

definition memo_ok :: "'a matchbase_scheme phrasematchResult list \<Rightarrow> 'a matchbase_scheme memo \<Rightarrow> bool" where
  "memo_ok prs memo \<longleftrightarrow>
     (\<forall>S \<in> set (stacks memo) \<union> set (maxStacks memo). \<exists>ps. compatible prs (elems S) ps)"

section \<open>expandFromArchetypes\<close>

text \<open>Lines 247-287.\<close>

text \<open>
  \<open>expandFromArchetypesInner\<close> returns its \<open>done\<close> flag together with the output array
  it pushes to. Its two loops over \<open>stack[matchIdx].exemplars\<close> are \<open>expand_last\<close> (the
  innermost round) and \<open>expand_next\<close>. Reading \<open>stack[matchIdx]\<close> beyond the end of the
  stack raises; with \<open>matchIdx = 0\<close> that is the empty stack, whose \<open>length - 1\<close> is \<open>-1\<close>.
\<close>

fun expand_last ::
  "('a archetype_scheme, 'b) stack_scheme \<Rightarrow> nat \<Rightarrow> phrasematch list \<Rightarrow> phrasematch list
     \<Rightarrow> phrasematch stack list \<Rightarrow> bool \<times> phrasematch stack list"
where
  "expand_last stack maxOut soFar [] out = (False, out)"
| "expand_last stack maxOut soFar (exemplar # rest) out =
     (let outStack = \<lparr> elems = soFar @ [exemplar], relev = relev stack,
                       adjRelev = adjRelev stack \<rparr>;
          out1 = out @ [outStack]
      in if length out1 \<ge> maxOut then (True, out1)
         else expand_last stack maxOut soFar rest out1)"

function expandFromArchetypesInner ::
    "('a archetype_scheme, 'b) stack_scheme \<Rightarrow> nat \<Rightarrow> nat \<Rightarrow> phrasematch list
       \<Rightarrow> phrasematch stack list \<Rightarrow> error + bool \<times> phrasematch stack list"
  and expand_next ::
    "('a archetype_scheme, 'b) stack_scheme \<Rightarrow> nat \<Rightarrow> nat \<Rightarrow> phrasematch list
       \<Rightarrow> phrasematch list \<Rightarrow> phrasematch stack list
       \<Rightarrow> error + bool \<times> phrasematch stack list"
where
  "expandFromArchetypesInner stack maxOut matchIdx soFar out =
     (if length (elems stack) \<le> matchIdx then Inl TypeError
      else if matchIdx + 1 = length (elems stack) then
        Inr (expand_last stack maxOut soFar (exemplars (elems stack ! matchIdx)) out)
      else expand_next stack maxOut matchIdx soFar (exemplars (elems stack ! matchIdx)) out)"
| "expand_next stack maxOut matchIdx soFar [] out = Inr (False, out)"
| "expand_next stack maxOut matchIdx soFar (exemplar # rest) out =
     (case expandFromArchetypesInner stack maxOut (matchIdx + 1) (soFar @ [exemplar]) out of
        Inl e \<Rightarrow> Inl e
      | Inr (done, out1) \<Rightarrow>
          if done then Inr (True, out1)
          else expand_next stack maxOut matchIdx soFar rest out1)"
  by pat_completeness auto
termination
  by (relation "measures
        [\<lambda>a. case a of Inl (stack, _, matchIdx, _) \<Rightarrow> length (elems stack) - matchIdx
                      | Inr (stack, _, matchIdx, _) \<Rightarrow> length (elems stack) - matchIdx,
         \<lambda>a. case a of Inl (stack, _, matchIdx, _) \<Rightarrow>
                          (if matchIdx < length (elems stack)
                           then Suc (length (exemplars (elems stack ! matchIdx))) else 0)
                      | Inr (_, _, _, _, exs, _) \<Rightarrow> length exs]")
     auto

fun expand_stacks ::
  "('a archetype_scheme, 'b) stack_scheme list \<Rightarrow> nat \<Rightarrow> phrasematch stack list
     \<Rightarrow> error + phrasematch stack list"
where
  "expand_stacks [] maxOut out = Inr out"
| "expand_stacks (stack # rest) maxOut out =
     (case expandFromArchetypesInner stack maxOut 0 [] out of
        Inl e \<Rightarrow> Inl e
      | Inr (done, out1) \<Rightarrow> if done then Inr out1 else expand_stacks rest maxOut out1)"

definition expandFromArchetypes ::
  "('a archetype_scheme, 'b) stack_scheme list \<Rightarrow> nat \<Rightarrow> error + phrasematch stack list"
where
  "expandFromArchetypes arch_stacks maxOut = expand_stacks arch_stacks maxOut []"

text \<open>The cartesian product of the exemplars lists of a stack, in stack order, each
  choice carrying the relevances of the stack. This is the specification that the
  expansion is compared with.\<close>

definition exemplar_product ::
  "('a archetype_scheme, 'b) stack_scheme \<Rightarrow> phrasematch stack list"
where
  "exemplar_product stack =
     map (\<lambda>choice. \<lparr> elems = choice, relev = relev stack, adjRelev = adjRelev stack \<rparr>)
       (product_lists (map exemplars (elems stack)))"

declare expandFromArchetypesInner.simps [simp del] expand_next.simps [simp del]

text \<open>The expansion tests \<open>out.length >= maxOut\<close> after each push, so it emits one
  stack even when \<open>maxOut\<close> is 0; this is the number of stacks after which it stops.\<close>

definition emit_bound :: "nat \<Rightarrow> nat" where
  "emit_bound maxOut = max 1 maxOut"

text \<open>An expanded stack, and the expanded stacks that complete \<open>soFar\<close> with a choice
  for every position from \<open>matchIdx\<close> on.\<close>

definition expanded :: "('a archetype_scheme, 'b) stack_scheme \<Rightarrow> phrasematch list \<Rightarrow> phrasematch stack" where
  "expanded stack choice = \<lparr> elems = choice, relev = relev stack, adjRelev = adjRelev stack \<rparr>"

definition completions ::
  "('a archetype_scheme, 'b) stack_scheme \<Rightarrow> nat \<Rightarrow> phrasematch list \<Rightarrow> phrasematch stack list" where
  "completions stack matchIdx soFar =
     map (\<lambda>choice. expanded stack (soFar @ choice))
       (product_lists (map exemplars (drop matchIdx (elems stack))))"

section \<open>allowed and the sort comparators\<close>

text \<open>Lines 296-309 and 444-482.\<close>

record options =
  proximity :: "(real \<times> real) option"
  bbox :: "real list option"
  allowed_idx :: "(nat \<Rightarrow> bool) option"
  stackable_limit :: nat
  spatialmatch_stack_limit :: nat

definition allowed ::
  "('a matchbase_scheme, 'b) relev_stack_scheme list \<Rightarrow> options
     \<Rightarrow> ('a matchbase_scheme, 'b) relev_stack_scheme list"
where
  "allowed arch_stacks opts =
     (case allowed_idx opts of
        None \<Rightarrow> arch_stacks
      | Some allowed_of \<Rightarrow>
          filter (\<lambda>stack. allowed_of (foldl max 0 (map idx (elems stack)))) arch_stacks)"

text \<open>\<open>Array.prototype.sort\<close> with a comparator is stable; it is modelled by insertion
  from the right, placing an element before the first one it does not compare greater
  than.\<close>

fun insert_by :: "('a \<Rightarrow> 'a \<Rightarrow> 'n::linordered_idom) \<Rightarrow> 'a \<Rightarrow> 'a list \<Rightarrow> 'a list" where
  "insert_by cmp a [] = [a]"
| "insert_by cmp a (b # bs) = (if cmp a b \<le> 0 then a # b # bs else b # insert_by cmp a bs)"

definition sort_by :: "('a \<Rightarrow> 'a \<Rightarrow> 'n::linordered_idom) \<Rightarrow> 'a list \<Rightarrow> 'a list" where
  "sort_by cmp as = foldr (insert_by cmp) as []"

definition sortByZoomIdx :: "'a matchbase_scheme \<Rightarrow> 'a matchbase_scheme \<Rightarrow> int" where
  "sortByZoomIdx a b =
     or_else (zoom a - zoom b) (or_else (int (idx a) - int (idx b)) (mask b - mask a))"

text \<open>The final scan of \<open>sortByRelevLengthIdx\<close>, from the last position to the first, on
  the reversed stacks; when it finds no difference the source returns \<open>undefined\<close>,
  which the sort reads as equal.\<close>

fun idx_scan :: "'a matchbase_scheme list \<Rightarrow> 'a matchbase_scheme list \<Rightarrow> real" where
  "idx_scan (a # as) (b # bs) =
     (if idx a \<noteq> idx b then real (idx a) - real (idx b) else idx_scan as bs)"
| "idx_scan _ _ = 0"

text \<open>The stacks compared here come from \<open>stackable\<close> and are not empty, so the last
  element that the source reads exists.\<close>

definition sortByRelevLengthIdx ::
  "'a matchbase_scheme stack \<Rightarrow> 'a matchbase_scheme stack \<Rightarrow> real"
where
  "sortByRelevLengthIdx a b =
     (let first =
        or_else (adjRelev b - adjRelev a)
       (or_else (real (length (elems a)) - real (length (elems b)))
       (or_else (relev b - relev a)
       (or_else (proxMatch (last (elems b)) - proxMatch (last (elems a)))
       (or_else (catMatch (last (elems b)) - catMatch (last (elems a)))
                (scorefactor (last (elems b)) - scorefactor (last (elems a)))))))
      in if first \<noteq> 0 then first else idx_scan (rev (elems a)) (rev (elems b)))"

section \<open>rebalance\<close>

text \<open>Lines 497-524.\<close>

text \<open>
  \<open>roundTo\<close> lives in lib/util/round-to.js, which is not among the sources; it is a
  parameter of the model. \<open>clone()\<close> copies a phrasematch. The result array only gets a
  \<open>relev\<close> property.
\<close>

definition stackMask_of :: "('a matchbase_scheme, 'b) relev_stack_scheme \<Rightarrow> int" where
  "stackMask_of stack = foldl js_or 0 (map mask (elems stack))"

definition garbage_of :: "string list \<Rightarrow> ('a matchbase_scheme, 'b) relev_stack_scheme \<Rightarrow> nat" where
  "garbage_of query stack =
     (if length query = split1_count (toString2 (stackMask_of stack)) then 0 else 1)"

definition rebalance ::
  "(real \<Rightarrow> nat \<Rightarrow> real) \<Rightarrow> string list \<Rightarrow> (phrasematch, 'b) relev_stack_scheme
     \<Rightarrow> phrasematch relev_stack"
where
  "rebalance roundTo query stack =
     (let garbage = garbage_of query stack;
          totalLengthBonus = 0.01 * real (garbage + length (elems stack));
          weightPerMatch = 1 / real (garbage + length (elems stack)) - 0.01;
          stackClone =
            map (\<lambda>m. m\<lparr>weight :=
                         roundTo ((weightPerMatch + totalLengthBonus * weight m)
                                    * editMultiplier m) 8\<rparr>)
              (elems stack);
          totalWeight = foldl (+) 0 (map weight stackClone)
      in \<lparr> elems = stackClone, relev = min (roundTo totalWeight 8) 1 \<rparr>)"

text \<open>The number of set bits of a 32-bit mask, for comparison with the digit count
  above.\<close>

definition popcount :: "32 word \<Rightarrow> nat" where
  "popcount w = length (filter (bit w) [0..<32])"

text \<open>The OR of a list of masks, as a 32-bit pattern.\<close>

definition mask_union :: "int list \<Rightarrow> 32 word" where
  "mask_union ms = foldr (OR) (map word_of_int ms) 0"

text \<open>The number of 1 digits in the binary numeral of a natural number.\<close>

fun bitcount :: "nat \<Rightarrow> nat" where
  "bitcount n = (if n = 0 then 0 else n mod 2 + bitcount (n div 2))"

declare bitcount.simps [simp del]

section \<open>Cover and Spatialmatch\<close>

text \<open>Lines 535-583.\<close>

record cacheCover =
  cc_x :: int
  cc_y :: int
  cc_relev :: real
  cc_id :: nat
  cc_idx :: nat
  cc_tmpid :: nat
  cc_distance :: real
  cc_score :: real
  cc_scoredist :: real
  cc_matches_language :: bool

text \<open>A result of the external coalesce: an array of covers with a \<open>relev\<close> property.\<close>

record cacheSpatialmatch =
  cs_relev :: real
  cs_covers :: "cacheCover list"

record cover =
  c_x :: int
  c_y :: int
  c_relev :: real
  c_id :: nat
  c_idx :: nat
  c_tmpid :: nat
  c_distance :: real
  c_score :: real
  c_scoredist :: real
  c_scorefactor :: real
  c_matches_language :: bool
  c_prefix :: prefix_scan
  c_mask :: int
  c_text :: string
  c_zoom :: int

record smatch =
  sm_relev :: real
  covers :: "cover list"
  sm_partialNumber :: bool
  sm_address :: "address option"
  sm_scoredist :: real

text \<open>\<open>subquery.join(' ')\<close>\<close>

fun join_space :: "string list \<Rightarrow> string" where
  "join_space [] = []"
| "join_space [t] = t"
| "join_space (t # ts) = t @ '' '' @ join_space ts"

text \<open>\<open>termops.decode3BitLogScale\<close> is not among the sources; it is the parameter
  \<open>decode\<close>.\<close>

definition Cover :: "(real \<Rightarrow> real \<Rightarrow> real) \<Rightarrow> cacheCover \<Rightarrow> phrasematch \<Rightarrow> cover" where
  "Cover decode cacheCover phrasematch =
     \<lparr> c_x = cc_x cacheCover, c_y = cc_y cacheCover, c_relev = cc_relev cacheCover,
       c_id = cc_id cacheCover, c_idx = cc_idx cacheCover, c_tmpid = cc_tmpid cacheCover,
       c_distance = cc_distance cacheCover,
       c_score = decode (cc_score cacheCover) (scorefactor phrasematch),
       c_scoredist =
         (if cc_scoredist cacheCover > 7
          then (scorefactor phrasematch / 7) * cc_scoredist cacheCover
          else decode (cc_scoredist cacheCover) (scorefactor phrasematch)),
       c_scorefactor = scorefactor phrasematch,
       c_matches_language = cc_matches_language cacheCover,
       c_prefix = prefix phrasematch, c_mask = mask phrasematch,
       c_text = join_space (tokens (subquery phrasematch)), c_zoom = zoom phrasematch \<rparr>"

text \<open>The loop of the \<open>Spatialmatch\<close> constructor. \<open>stackByIdx.get\<close> of an idx that is not
  in the stack gives \<open>undefined\<close>, and \<open>Cover\<close> raises on reading its fields.\<close>

fun push_covers ::
  "(real \<Rightarrow> real \<Rightarrow> real) \<Rightarrow> (nat \<times> phrasematch) list \<Rightarrow> (nat \<times> address) list
     \<Rightarrow> cacheCover list \<Rightarrow> cover list \<Rightarrow> address option
     \<Rightarrow> error + cover list \<times> address option"
where
  "push_covers decode stackByIdx addressDataByIdx [] cvs addr = Inr (cvs, addr)"
| "push_covers decode stackByIdx addressDataByIdx (cacheCover # rest) cvs addr =
     (case map_of stackByIdx (cc_idx cacheCover) of
        None \<Rightarrow> Inl TypeError
      | Some phrasematch \<Rightarrow>
          push_covers decode stackByIdx addressDataByIdx rest
            (cvs @ [Cover decode cacheCover phrasematch])
            (case addr of
               Some a \<Rightarrow> Some a
             | None \<Rightarrow> map_of addressDataByIdx (cc_idx cacheCover)))"

definition Spatialmatch ::
  "(real \<Rightarrow> real \<Rightarrow> real) \<Rightarrow> cacheSpatialmatch \<Rightarrow> (nat \<times> phrasematch) list
     \<Rightarrow> (nat \<times> address) list \<Rightarrow> bool \<Rightarrow> error + smatch"
where
  "Spatialmatch decode cacheSpatialmatch stackByIdx addressDataByIdx partialNum =
     (case push_covers decode stackByIdx addressDataByIdx (cs_covers cacheSpatialmatch)
             [] None of
        Inl e \<Rightarrow> Inl e
      | Inr (cvs, addr) \<Rightarrow>
          (case cvs of
             [] \<Rightarrow> Inl TypeError
           | c # _ \<Rightarrow>
               Inr \<lparr> sm_relev = cs_relev cacheSpatialmatch, covers = cvs,
                     sm_partialNumber = partialNum, sm_address = addr,
                     sm_scoredist =
                       (if partialNum then c_scoredist c * 300 else c_scoredist c) \<rparr>))"

section \<open>The coalesce driver and the finalizer\<close>

text \<open>Lines 71-132 (\<open>coalesceStack\<close>), 316-321 (\<open>getStackByIdx\<close>) and 140-180
  (\<open>coalesceFinalize\<close>).\<close>

record coalesceOpts =
  centerzxy :: "int list option"
  radius_opt :: "real option"
  bboxzxy :: "int list option"

text \<open>
  The collaborators that are not among the sources are parameters: the rounding and
  decoding helpers, the projection helpers, the default radius constant and the
  external \<open>coalesce\<close>, whose callback result is \<open>None\<close> when it passes no array.
\<close>

record env =
  roundTo :: "real \<Rightarrow> nat \<Rightarrow> real"
  decode3BitLogScale :: "real \<Rightarrow> real \<Rightarrow> real"
  center2zxy :: "real \<times> real \<Rightarrow> int \<Rightarrow> int list"
  bufferPoint :: "real \<Rightarrow> real \<times> real \<Rightarrow> real \<Rightarrow> real list"
  intersection :: "real list \<Rightarrow> real list \<Rightarrow> real list option"
  insideTile :: "real list \<Rightarrow> int \<Rightarrow> int list"
  COALESCE_PROXIMITY_RADIUS :: real
  coalesce :: "phrasematch relev_stack \<Rightarrow> coalesceOpts \<Rightarrow> cacheSpatialmatch list option"

text \<open>\<open>getStackByIdx\<close>: a Map filled from the last element of the stack to the first.\<close>

definition getStackByIdx :: "phrasematch list \<Rightarrow> (nat \<times> phrasematch) list" where
  "getStackByIdx stack = foldl (\<lambda>byIdx m. AList.update (idx m) m byIdx) [] (rev stack)"

definition addressData :: "phrasematch list \<Rightarrow> (nat \<times> address) list" where
  "addressData stack =
     foldl (\<lambda>byIdx m. case address m of
                         Some a \<Rightarrow> AList.update (idx m) a byIdx
                       | None \<Rightarrow> byIdx) [] stack"

fun new_spatialmatches ::
  "(real \<Rightarrow> real \<Rightarrow> real) \<Rightarrow> (nat \<times> phrasematch) list \<Rightarrow> (nat \<times> address) list \<Rightarrow> bool
     \<Rightarrow> cacheSpatialmatch list \<Rightarrow> error + smatch list"
where
  "new_spatialmatches decode stackByIdx addressDataByIdx partialNum [] = Inr []"
| "new_spatialmatches decode stackByIdx addressDataByIdx partialNum (c # cs) =
     (case Spatialmatch decode c stackByIdx addressDataByIdx partialNum of
        Inl e \<Rightarrow> Inl e
      | Inr sm \<Rightarrow>
          (case new_spatialmatches decode stackByIdx addressDataByIdx partialNum cs of
             Inl e \<Rightarrow> Inl e
           | Inr sms \<Rightarrow> Inr (sm # sms)))"

text \<open>What one run of \<open>coalesceStack\<close> leaves behind: the coalesce calls it issued, the
  entries it pushed to \<open>waste\<close>, and the spatialmatches it passed to its callback.\<close>

record coalesced =
  calls :: "(phrasematch relev_stack \<times> coalesceOpts) list"
  wasted :: "nat list list"
  spatialmatches :: "smatch list"

definition proximity_opts :: "env \<Rightarrow> options \<Rightarrow> phrasematch list \<Rightarrow> error + coalesceOpts" where
  "proximity_opts ev opts stack =
     (case proximity opts of
        None \<Rightarrow> Inr \<lparr> centerzxy = None, radius_opt = None, bboxzxy = None \<rparr>
      | Some p \<Rightarrow>
          if stack = [] then Inl TypeError
          else Inr \<lparr> centerzxy = Some (center2zxy ev p (foldr max (map zoom stack) 0)),
                     radius_opt =
                       Some (case radius (last stack) of
                               None \<Rightarrow> COALESCE_PROXIMITY_RADIUS ev
                             | Some r \<Rightarrow> if r \<noteq> 0 then r else COALESCE_PROXIMITY_RADIUS ev),
                     bboxzxy = None \<rparr>)"

definition run_coalesce ::
  "env \<Rightarrow> phrasematch relev_stack \<Rightarrow> coalesceOpts \<Rightarrow> bool \<Rightarrow> error + coalesced"
where
  "run_coalesce ev stack coalesceOpts partialNum =
     (let stackByIdx = getStackByIdx (elems stack);
          cacheSpatialmatches = (case coalesce ev stack coalesceOpts of
                                   None \<Rightarrow> [] | Some found \<Rightarrow> found)
      in case new_spatialmatches (decode3BitLogScale ev) stackByIdx
                (addressData (elems stack)) partialNum cacheSpatialmatches of
           Inl e \<Rightarrow> Inl e
         | Inr sms \<Rightarrow>
             Inr \<lparr> calls = [(stack, coalesceOpts)],
                   wasted = (if cacheSpatialmatches = [] then [map fst stackByIdx] else []),
                   spatialmatches = sms \<rparr>)"

definition coalesceStack :: "env \<Rightarrow> options \<Rightarrow> phrasematch relev_stack \<Rightarrow> error + coalesced" where
  "coalesceStack ev opts stack =
     (let partialNum = (if elems stack \<noteq> [] then partialNumber (last (elems stack))
                           else False)
      in case proximity_opts ev opts (elems stack) of
           Inl e \<Rightarrow> Inl e
         | Inr coalesceOpts \<Rightarrow>
             (case (partialNum, proximity opts) of
                (True, Some p) \<Rightarrow>
                  (let pnBbox = bufferPoint ev (snd p) p 10
                   in case bbox opts of
                        None \<Rightarrow>
                          if elems stack = [] then Inl TypeError
                          else run_coalesce ev stack
                                 (coalesceOpts\<lparr>bboxzxy :=
                                    Some (insideTile ev pnBbox (zoom (hd (elems stack))))\<rparr>)
                                 partialNum
                      | Some b \<Rightarrow>
                          (case intersection ev pnBbox b of
                             None \<Rightarrow> Inr \<lparr> calls = [], wasted = [], spatialmatches = [] \<rparr>
                           | Some clipped \<Rightarrow>
                               if elems stack = [] then Inl TypeError
                               else run_coalesce ev stack
                                      (coalesceOpts\<lparr>bboxzxy :=
                                         Some (insideTile ev clipped
                                                 (zoom (hd (elems stack))))\<rparr>)
                                      partialNum))
              | _ \<Rightarrow>
                  (case bbox opts of
                     None \<Rightarrow> run_coalesce ev stack coalesceOpts partialNum
                   | Some b \<Rightarrow>
                       if elems stack = [] then Inl TypeError
                       else run_coalesce ev stack
                              (coalesceOpts\<lparr>bboxzxy :=
                                 Some (insideTile ev b (zoom (hd (elems stack))))\<rparr>)
                              partialNum)))"

text \<open>The queue runs \<open>coalesceStack\<close> on every stack and hands all results to
  \<open>coalesceFinalize\<close>; here the stacks are taken in order.\<close>

fun coalesceStacks :: "env \<Rightarrow> options \<Rightarrow> phrasematch relev_stack list \<Rightarrow> error + coalesced list"
where
  "coalesceStacks ev opts [] = Inr []"
| "coalesceStacks ev opts (stack # rest) =
     (case coalesceStack ev opts stack of
        Inl e \<Rightarrow> Inl e
      | Inr c \<Rightarrow>
          (case coalesceStacks ev opts rest of
             Inl e \<Rightarrow> Inl e
           | Inr cs \<Rightarrow> Inr (c # cs)))"

definition sortByRelev :: "smatch \<Rightarrow> smatch \<Rightarrow> real" where
  "sortByRelev a b =
     or_else (sm_relev b - sm_relev a)
    (or_else (sm_scoredist b - sm_scoredist a)
    (or_else (real (c_idx (hd (covers a))) - real (c_idx (hd (covers b))))
             ((if sm_address b \<noteq> None then 1 else 0) - (if sm_address a \<noteq> None then 1 else 0))))"

record dedup =
  sets :: "nat \<rightharpoonup> cover"
  doneAscending :: "nat set"
  doneDescending :: "nat set"
  doneSingle :: "nat set"
  filteredSpatialmatches :: "smatch list"

fun best_covers :: "(nat \<rightharpoonup> cover) \<Rightarrow> cover list \<Rightarrow> (nat \<rightharpoonup> cover)" where
  "best_covers best [] = best"
| "best_covers best (c # cs) =
     best_covers
       (case best (c_tmpid c) of
          None \<Rightarrow> best(c_tmpid c \<mapsto> c)
        | Some old \<Rightarrow> if c_relev old < c_relev c then best(c_tmpid c \<mapsto> c) else best)
       cs"

text \<open>One round of the loop of \<open>coalesceFinalize\<close>. \<open>covers[0].tmpid\<close> raises when a
  spatialmatch has no cover.\<close>

definition dedup_step :: "dedup \<Rightarrow> smatch \<Rightarrow> error + dedup" where
  "dedup_step st spatialmatch =
     (let st1 = st\<lparr>sets := best_covers (sets st) (covers spatialmatch)\<rparr>
      in case covers spatialmatch of
           [] \<Rightarrow> Inl TypeError
         | c0 # others \<Rightarrow>
             let tmpid = c_tmpid c0
             in if length (covers spatialmatch) > 1 \<and> c_idx c0 > c_idx (hd others)
                   \<and> tmpid \<notin> doneDescending st1
                then Inr (st1\<lparr>doneDescending := insert tmpid (doneDescending st1),
                               filteredSpatialmatches :=
                                 filteredSpatialmatches st1 @ [spatialmatch]\<rparr>)
                else if length (covers spatialmatch) > 1 \<and> c_idx c0 < c_idx (hd others)
                   \<and> tmpid \<notin> doneAscending st1
                then Inr (st1\<lparr>doneAscending := insert tmpid (doneAscending st1),
                               filteredSpatialmatches :=
                                 filteredSpatialmatches st1 @ [spatialmatch]\<rparr>)
                else if length (covers spatialmatch) = 1 \<and> tmpid \<notin> doneAscending st1
                   \<and> tmpid \<notin> doneDescending st1 \<and> tmpid \<notin> doneSingle st1
                then Inr (st1\<lparr>doneSingle := insert tmpid (doneSingle st1),
                               filteredSpatialmatches :=
                                 filteredSpatialmatches st1 @ [spatialmatch]\<rparr>)
                else Inr st1)"

fun dedup_loop :: "dedup \<Rightarrow> smatch list \<Rightarrow> error + dedup" where
  "dedup_loop st [] = Inr st"
| "dedup_loop st (spatialmatch # rest) =
     (case dedup_step st spatialmatch of
        Inl e \<Rightarrow> Inl e
      | Inr st1 \<Rightarrow> dedup_loop st1 rest)"

definition dedup_init :: dedup where
  "dedup_init = \<lparr> sets = Map.empty, doneAscending = {}, doneDescending = {},
                  doneSingle = {}, filteredSpatialmatches = [] \<rparr>"

record spatialmatch_output =
  results :: "smatch list"
  out_sets :: "nat \<rightharpoonup> cover"
  waste :: "nat list list"

text \<open>The deduplication pass on the sorted list \<open>combined\<close>.\<close>

definition dedup_pass :: "smatch list \<Rightarrow> error + dedup" where
  "dedup_pass combined = dedup_loop dedup_init combined"

definition coalesceFinalize ::
  "nat list list \<Rightarrow> error option \<Rightarrow> smatch list list \<Rightarrow> error + spatialmatch_output"
where
  "coalesceFinalize waste_list err res =
     (case err of
        Some e \<Rightarrow> Inl e
      | None \<Rightarrow>
          (case dedup_pass (sort_by sortByRelev (concat res)) of
             Inl e \<Rightarrow> Inl e
           | Inr st \<Rightarrow>
               Inr \<lparr> results = filteredSpatialmatches st, out_sets = sets st,
                     waste = waste_list \<rparr>))"

text \<open>The kinds of result that the deduplication tells apart, the key it uses, and the
  list of results that the pass emits.\<close>

definition first_tmpid :: "smatch \<Rightarrow> nat" where
  "first_tmpid s = c_tmpid (hd (covers s))"

definition descending :: "smatch \<Rightarrow> bool" where
  "descending s \<longleftrightarrow> length (covers s) > 1 \<and> c_idx (covers s ! 0) > c_idx (covers s ! 1)"

definition ascending :: "smatch \<Rightarrow> bool" where
  "ascending s \<longleftrightarrow> length (covers s) > 1 \<and> c_idx (covers s ! 0) < c_idx (covers s ! 1)"

definition single_cover :: "smatch \<Rightarrow> bool" where
  "single_cover s \<longleftrightarrow> length (covers s) = 1"

definition dedup_results :: "smatch list \<Rightarrow> error + smatch list" where
  "dedup_results combined = map_sum id filteredSpatialmatches (dedup_pass combined)"

text \<open>The invariant of the loop: a key is marked for a kind exactly when a result of
  that kind with that key has been emitted, and at most one has.\<close>

definition marks :: "(smatch \<Rightarrow> bool) \<Rightarrow> nat set \<Rightarrow> smatch list \<Rightarrow> bool" where
  "marks kind done emitted \<longleftrightarrow>
     (\<forall>t. t \<in> done \<longleftrightarrow> (\<exists>s \<in> set emitted. kind s \<and> first_tmpid s = t)) \<and>
     (\<forall>t. length (filter (\<lambda>s. kind s \<and> first_tmpid s = t) emitted) \<le> 1)"

definition dedup_inv :: "dedup \<Rightarrow> bool" where
  "dedup_inv st \<longleftrightarrow>
     marks descending (doneDescending st) (filteredSpatialmatches st) \<and>
     marks ascending (doneAscending st) (filteredSpatialmatches st) \<and>
     marks single_cover (doneSingle st) (filteredSpatialmatches st)"

section \<open>spatialmatch\<close>

text \<open>Lines 29-63.\<close>

definition build_stacks ::
  "phrasematch phrasematchResult list \<Rightarrow> options \<Rightarrow> error + phrasematch stack list"
where
  "build_stacks phrasematchResults opts =
     (if phrasematchResults \<noteq> [] then
        (case stackable (collapseToArchetypes phrasematchResults) (stackable_limit opts) of
           Inl e \<Rightarrow> Inl e
         | Inr stacked \<Rightarrow>
             expandFromArchetypes
               (take (spatialmatch_stack_limit opts)
                  (sort_by sortByRelevLengthIdx
                     (map (\<lambda>arch_stack.
                             arch_stack\<lparr>elems := sort_by sortByZoomIdx (elems arch_stack)\<rparr>)
                        (allowed stacked opts))))
               (spatialmatch_stack_limit opts))
      else Inr [])"

text \<open>The whole function: the coalesce calls it issued and what it passes to its
  callback, an error or the output object.\<close>

definition spatialmatch ::
  "env \<Rightarrow> string list \<Rightarrow> phrasematch phrasematchResult list \<Rightarrow> options
     \<Rightarrow> (phrasematch relev_stack \<times> coalesceOpts) list \<times> (error + spatialmatch_output)"
where
  "spatialmatch ev query phrasematchResults opts =
     (case build_stacks phrasematchResults opts of
        Inl e \<Rightarrow> ([], Inl e)
      | Inr stks \<Rightarrow>
          (case coalesceStacks ev opts (map (rebalance (roundTo ev) query) stks) of
             Inl e \<Rightarrow> ([], Inl e)
           | Inr runs \<Rightarrow>
               (concat (map calls runs),
                coalesceFinalize (concat (map wasted runs)) None (map spatialmatches runs))))"

section \<open>Example inputs\<close>

definition one_token :: subquery where
  "one_token = \<lparr> tokens = [''main''], edit_distance = 0 \<rparr>"

definition two_tokens :: subquery where
  "two_tokens = \<lparr> tokens = [''main'', ''st''], edit_distance = 0 \<rparr>"

definition pm :: "int \<Rightarrow> real \<Rightarrow> int \<Rightarrow> nat \<Rightarrow> subquery \<Rightarrow> phrasematch" where
  "pm m w z i sq =
     \<lparr> mask = m, weight = w, editMultiplier = 1, zoom = z, idx = i, scorefactor = 1,
       proxMatch = 0, catMatch = 0, prefix = enabled, subquery = sq,
       partialNumber = False, radius = None, address = None \<rparr>"

definition three_alike :: "phrasematch phrasematchResult" where
  "three_alike =
     \<lparr> phrasematches = [pm 1 1 6 0 one_token, pm 1 1 6 0 one_token, pm 1 1 6 0 one_token],
       r_idx = 0, nmask = 1, bmask = [] \<rparr>"

definition two_zooms :: "phrasematch phrasematchResult" where
  "two_zooms =
     \<lparr> phrasematches = [pm 1 1 6 0 two_tokens, pm 1 1 7 0 two_tokens],
       r_idx = 0, nmask = 1, bmask = [] \<rparr>"

definition arch :: "phrasematch \<Rightarrow> real \<Rightarrow> phrasematch list \<Rightarrow> archetype" where
  "arch p em exs =
     \<lparr> mask = mask p, weight = weight p, editMultiplier = em, zoom = zoom p, idx = idx p,
       scorefactor = scorefactor p, proxMatch = proxMatch p, catMatch = catMatch p,
       prefix = prefix p, exemplars = exs \<rparr>"

definition three_alike_archetype :: archetype where
  "three_alike_archetype =
     arch (pm 1 1 6 0 one_token) 0.99
       [pm 1 1 6 0 one_token, pm 1 1 6 0 one_token, pm 1 1 6 0 one_token]"

definition two_zooms_archetype :: archetype where
  "two_zooms_archetype =
     arch (pm 1 1 6 0 two_tokens) 1 [pm 1 1 6 0 two_tokens, pm 1 1 7 0 two_tokens]"



definition am :: "int \<Rightarrow> real \<Rightarrow> nat \<Rightarrow> matchbase" where
  "am m w i = \<lparr> mask = m, weight = w, editMultiplier = 1, zoom = 6, idx = i, scorefactor = 1,
       proxMatch = 0, catMatch = 0, prefix = enabled \<rparr>"

definition res :: "'m list \<Rightarrow> nat \<Rightarrow> int \<Rightarrow> nat list \<Rightarrow> 'm phrasematchResult" where
  "res ms i n b = \<lparr> phrasematches = ms, r_idx = i, nmask = n, bmask = b \<rparr>"

definition three_levels :: "matchbase phrasematchResult list" where
  "three_levels = [res [am 1 0.5 0] 0 1 [], res [am 4 0.25 1] 1 2 [], res [am 2 0.25 2] 2 4 [] ]"

definition one_sided_bmask :: "matchbase phrasematchResult list" where
  "one_sided_bmask = [res [am 1 0.5 0] 0 1 [0, 1], res [am 2 0.5 1] 1 2 [] ]"

definition same_idx :: "matchbase phrasematchResult list" where
  "same_idx = [res [am 2 0.5 0] 0 1 [], res [am 1 0.5 0] 0 2 [] ]"

definition two_weights :: "matchbase phrasematchResult list" where
  "two_weights = [res [am 1 1 0, am 2 0.75 0] 0 1 [] ]"

definition best_stack :: "matchbase stack" where
  "best_stack = \<lparr> elems = [am 1 1 0], relev = 1, adjRelev = 1 \<rparr>"

definition lesser_stack :: "matchbase stack" where
  "lesser_stack = \<lparr> elems = [am 2 0.75 0], relev = 0.75, adjRelev = 0.75 \<rparr>"

definition full_memo :: "matchbase memo" where
  "full_memo = \<lparr> stacks = [], maxStacks = [best_stack], maxRelev = 1 \<rparr>"

definition pair_stack :: "archetype stack" where
  "pair_stack =
     \<lparr> elems = [arch (pm 1 0.5 6 0 one_token) 1 [pm 1 0.5 6 0 one_token, pm 1 0.5 6 0 two_tokens],
                arch (pm 2 0.5 6 1 one_token) 1 [pm 2 0.5 6 1 one_token, pm 2 0.5 6 1 two_tokens] ],
       relev = 1, adjRelev = 0.875 \<rparr>"

definition chosen :: "phrasematch list \<Rightarrow> phrasematch stack" where
  "chosen choice = \<lparr> elems = choice, relev = 1, adjRelev = 0.875 \<rparr>"

text \<open>A rounding function to run \<open>rebalance\<close> with: \<open>Math.round(value * 10^places) /
  10^places\<close>.\<close>

definition round_half_up :: "real \<Rightarrow> nat \<Rightarrow> real" where
  "round_half_up v places = of_int \<lfloor>v * 10 ^ places + 1 / 2\<rfloor> / 10 ^ places"

definition q32 :: "string list" where
  "q32 = replicate 32 ''a''"

definition all_tokens_stack :: "phrasematch relev_stack" where
  "all_tokens_stack = \<lparr> elems = [pm (- 1) 1 6 0 one_token], relev = 1 \<rparr>"

definition cv :: "nat \<Rightarrow> nat \<Rightarrow> cover" where
  "cv i t = \<lparr> c_x = 0, c_y = 0, c_relev = 1, c_id = t, c_idx = i, c_tmpid = t, c_distance = 0,
              c_score = 1, c_scoredist = 1, c_scorefactor = 1, c_matches_language = True,
              c_prefix = enabled, c_mask = 1, c_text = ''main'', c_zoom = 6 \<rparr>"

definition sm :: "cover list \<Rightarrow> real \<Rightarrow> smatch" where
  "sm cs r = \<lparr> sm_relev = r, covers = cs, sm_partialNumber = False, sm_address = None,
               sm_scoredist = 1 \<rparr>"

definition both_directions :: "smatch list" where
  "both_directions =
     [sm [cv 2 7, cv 1 3] 1, sm [cv 2 7, cv 3 9] 1, sm [cv 2 7, cv 0 5] 0.5, sm [cv 2 7] 0.5]"

text \<open>A decoder to run the \<open>Cover\<close> constructor with.\<close>

definition times_factor :: "real \<Rightarrow> real \<Rightarrow> real" where
  "times_factor code factor = code * factor"

definition cc :: "nat \<Rightarrow> nat \<Rightarrow> real \<Rightarrow> cacheCover" where
  "cc i t sd = \<lparr> cc_x = 0, cc_y = 0, cc_relev = 1, cc_id = t, cc_idx = i, cc_tmpid = t,
                 cc_distance = 0, cc_score = 1, cc_scoredist = sd, cc_matches_language = True \<rparr>"

definition one_cover :: cacheSpatialmatch where
  "one_cover = \<lparr> cs_relev = 1, cs_covers = [cc 0 7 2] \<rparr>"

definition built_cover :: cover where
  "built_cover = \<lparr> c_x = 0, c_y = 0, c_relev = 1, c_id = 7, c_idx = 0, c_tmpid = 7,
       c_distance = 0, c_score = 1, c_scoredist = 2, c_scorefactor = 1,
       c_matches_language = True, c_prefix = enabled, c_mask = 1, c_text = ''main'',
       c_zoom = 6 \<rparr>"

section \<open>Properties of collapseToArchetypes\<close>

lemma group_matches_distinct:
  "distinct (map fst uniqMap) \<Longrightarrow> distinct (map fst (group_matches ridx uniqMap pms))"
  by (induction pms arbitrary: uniqMap) (simp_all add: Let_def distinct_update)

text \<open>What the Map holds under a key after the loop: the entry it had, or a new one made
  from the first match with that key, with every match of that key appended in order.\<close>

lemma group_matches_map_of:
  "map_of (group_matches ridx uniqMap pms) s =
     (case map_of uniqMap s of
        None \<Rightarrow> (if filter (\<lambda>m. signature_of m = s) pms = [] then None
                 else Some ((new_outMatch ridx (hd (filter (\<lambda>m. signature_of m = s) pms)))
                        \<lparr>exemplars := filter (\<lambda>m. signature_of m = s) pms\<rparr>))
      | Some g \<Rightarrow> Some (g\<lparr>exemplars := exemplars g @ filter (\<lambda>m. signature_of m = s) pms\<rparr>))"
proof (induction pms arbitrary: uniqMap)
  case Nil
  then show ?case by (simp split: option.splits)
next
  case (Cons m pms)
  show ?case
    by (simp add: Cons.IH Let_def update_conv' new_outMatch_def split: option.splits)
qed

lemma group_matches_entry:
  assumes "(s, g) \<in> set (group_matches ridx [] pms)"
  shows "filter (\<lambda>m. signature_of m = s) pms \<noteq> [] \<and>
         g = (new_outMatch ridx (hd (filter (\<lambda>m. signature_of m = s) pms)))
               \<lparr>exemplars := filter (\<lambda>m. signature_of m = s) pms\<rparr>"
proof -
  have "distinct (map fst (group_matches ridx [] pms))"
    by (rule group_matches_distinct) simp
  with assms have "map_of (group_matches ridx [] pms) s = Some g"
    by simp
  then show ?thesis
    by (simp add: group_matches_map_of split: if_splits)
qed

text \<open>Every archetype of a collapsed result is the group of one key: its exemplars are
  the matches of the input result with that key, in input order, its fields are read
  from the first of them, and the penalty is applied to it or not.\<close>

lemma nerf_fields [simp]:
  "exemplars (nerf g) = exemplars g" "mask (nerf g) = mask g" "weight (nerf g) = weight g"
  "zoom (nerf g) = zoom g" "idx (nerf g) = idx g" "scorefactor (nerf g) = scorefactor g"
  "proxMatch (nerf g) = proxMatch g" "catMatch (nerf g) = catMatch g"
  "prefix (nerf g) = prefix g"
  by (simp_all add: nerf_def)

lemma low_confidence_nerf [simp]: "low_confidence (nerf g) = low_confidence g"
  by (simp add: low_confidence_def)

lemma nerf_editMultiplier:
  "editMultiplier (nerf g) =
     (if low_confidence g then editMultiplier g * 0.99 else editMultiplier g)"
  by (simp add: nerf_def)

lemma collapsed_group:
  assumes "grp \<in> set (phrasematches (collapseResult inResult))"
  obtains s g where
    "filter (\<lambda>m. signature_of m = s) (phrasematches inResult) \<noteq> []"
    "g = (new_outMatch (r_idx inResult)
            (hd (filter (\<lambda>m. signature_of m = s) (phrasematches inResult))))
          \<lparr>exemplars := filter (\<lambda>m. signature_of m = s) (phrasematches inResult)\<rparr>"
    "grp = nerf g"
proof -
  from assms obtain s g
    where sg: "(s, g) \<in> set (group_matches (r_idx inResult) [] (phrasematches inResult))"
    and grp: "grp = nerf g"
    by (auto simp: collapseResult_def)
  from group_matches_entry [OF sg] grp show thesis
    by (intro that [of s g]) simp_all
qed

lemma filter_all_satisfy: "e \<in> set (filter P xs) \<Longrightarrow> P e"
  by simp

lemma hd_filter_satisfies: "filter P xs \<noteq> [] \<Longrightarrow> P (hd (filter P xs))"
  by (metis filter_all_satisfy hd_in_set)

lemmas ex_defs = three_alike_def pm_def one_token_def two_tokens_def two_zooms_def arch_def
  three_alike_archetype_def two_zooms_archetype_def
lemmas collapse_defs = collapseToArchetypes_def collapseResult_def signature_of_def
  new_outMatch_def nerf_def low_confidence_def

lemma collapse_three_alike:
  "collapseToArchetypes [three_alike] =
     [\<lparr> phrasematches = [three_alike_archetype], r_idx = 0, nmask = 1, bmask = [] \<rparr>]"
  by (simp add: collapse_defs ex_defs)

lemma collapse_two_zooms:
  "collapseToArchetypes [two_zooms] =
     [\<lparr> phrasematches = [two_zooms_archetype], r_idx = 0, nmask = 1, bmask = [] \<rparr>]"
  by (simp add: collapse_defs ex_defs)








text \<open>
  Claim C6, as stated, fails: two phrasematches with the same key and different zoom
  levels are collapsed into one archetype, which carries the zoom of the first.
\<close>

theorem archetype_scoring_fields_counterexample:
  "two_zooms_archetype \<in> set (phrasematches (collapseToArchetypes [two_zooms] ! 0)) \<and>
   pm 1 1 7 0 two_tokens \<in> set (exemplars two_zooms_archetype) \<and>
   zoom two_zooms_archetype \<noteq> zoom (pm 1 1 7 0 two_tokens)"
  by (simp add: collapse_two_zooms) (simp add: ex_defs)

text \<open>
  Claim C6, amended. For every archetype produced by collapse and every one of its
  exemplars, the archetype's mask, weight and prefix are the exemplar's; its
  editMultiplier is the exemplar's, multiplied by 0.99 when the low-confidence penalty
  applies to the group; its zoom, scorefactor, proxMatch and catMatch are those of its
  first exemplar; and its idx is the idx of the result it was collapsed from.
\<close>

theorem archetype_scoring_fields:
  assumes "i < length phrasematchResults"
    and "grp \<in> set (phrasematches (collapseToArchetypes phrasematchResults ! i))"
    and "e \<in> set (exemplars grp)"
  shows "mask grp = mask e \<and> weight grp = weight e \<and> prefix grp = prefix e \<and>
     editMultiplier grp =
       (if length (tokens (subquery (hd (exemplars grp)))) = 1 \<and>
           edit_distance (subquery (hd (exemplars grp))) = 0 \<and>
           prefix grp \<noteq> disabled \<and>
           length (exemplars grp) > 2
        then editMultiplier e * 0.99 else editMultiplier e) \<and>
     zoom grp = zoom (hd (exemplars grp)) \<and>
     scorefactor grp = scorefactor (hd (exemplars grp)) \<and>
     proxMatch grp = proxMatch (hd (exemplars grp)) \<and>
     catMatch grp = catMatch (hd (exemplars grp)) \<and>
     idx grp = r_idx (phrasematchResults ! i)"
proof -
  from assms have mem: "grp \<in> set (phrasematches (collapseResult (phrasematchResults ! i)))"
    by (simp add: collapseToArchetypes_def)
  define pms where "pms = phrasematches (phrasematchResults ! i)"
  from mem obtain s g where
    ne: "filter (\<lambda>m. signature_of m = s) pms \<noteq> []"
    and g: "g = (new_outMatch (r_idx (phrasematchResults ! i))
            (hd (filter (\<lambda>m. signature_of m = s) pms)))
          \<lparr>exemplars := filter (\<lambda>m. signature_of m = s) pms\<rparr>"
    and grp: "grp = nerf g"
    unfolding pms_def by (rule collapsed_group)
  have ex: "exemplars grp = filter (\<lambda>m. signature_of m = s) pms"
    by (simp add: grp g)
  from ne ex have s: "signature_of (hd (exemplars grp)) = s"
    using hd_filter_satisfies [of "\<lambda>m. signature_of m = s"] by simp
  from assms(3) ex have e: "signature_of e = s"
    by simp
  have fields: "mask g = mask (hd (exemplars grp))" "weight g = weight (hd (exemplars grp))"
    "editMultiplier g = editMultiplier (hd (exemplars grp))"
    "prefix g = prefix (hd (exemplars grp))" "zoom g = zoom (hd (exemplars grp))"
    "scorefactor g = scorefactor (hd (exemplars grp))"
    "proxMatch g = proxMatch (hd (exemplars grp))"
    "catMatch g = catMatch (hd (exemplars grp))" "idx g = r_idx (phrasematchResults ! i)"
    by (simp_all add: ex) (simp_all add: g new_outMatch_def)
  from s e have "signature_of (hd (exemplars grp)) = signature_of e"
    by simp
  then have same: "mask (hd (exemplars grp)) = mask e" "weight (hd (exemplars grp)) = weight e"
    "editMultiplier (hd (exemplars grp)) = editMultiplier e"
    "prefix (hd (exemplars grp)) = prefix e"
    by (simp_all add: signature_of_def)
  have "editMultiplier grp =
       (if low_confidence g then editMultiplier g * 0.99 else editMultiplier g)"
    by (simp add: grp nerf_editMultiplier)
  moreover have "low_confidence g = low_confidence grp"
    by (simp add: grp)
  ultimately have em: "editMultiplier grp =
       (if low_confidence grp then editMultiplier e * 0.99 else editMultiplier e)"
    using fields(3) same(3) by simp
  show ?thesis
    using fields same em by (simp add: grp low_confidence_def)
qed

theorem archetype_scoring_fields_witness:
  "0 < length [three_alike] \<and>
   three_alike_archetype \<in> set (phrasematches (collapseToArchetypes [three_alike] ! 0)) \<and>
   pm 1 1 6 0 one_token \<in> set (exemplars three_alike_archetype) \<and>
   weight three_alike_archetype = weight (pm 1 1 6 0 one_token) \<and>
   editMultiplier three_alike_archetype = editMultiplier (pm 1 1 6 0 one_token) * 0.99 \<and>
   idx three_alike_archetype = r_idx three_alike"
proof -
  have h1: "0 < length [three_alike]" by simp
  have h2: "three_alike_archetype \<in> set (phrasematches (collapseToArchetypes [three_alike] ! 0))"
    by (simp add: collapse_three_alike)
  have h3: "pm 1 1 6 0 one_token \<in> set (exemplars three_alike_archetype)"
    by (simp add: three_alike_archetype_def arch_def)
  show ?thesis
    using h2 h3 archetype_scoring_fields [OF h1 h2 h3] by (simp add: ex_defs)
qed

section \<open>Properties of stackable\<close>

lemma js_and_eq_0: "js_and a b = 0 \<longleftrightarrow> (word_of_int a :: 32 word) AND word_of_int b = 0"
  unfolding js_and_def by (rule signed_eq_0_iff)

lemma js_and_commute: "js_and a b = js_and b a"
  unfolding js_and_def by (subst and.commute) (rule refl)

lemma word_or_and_0: "((x::32 word) OR y) AND z = 0 \<longleftrightarrow> x AND z = 0 \<and> y AND z = 0"
  by (simp add: bit.conj_disj_distrib2 or_eq_0_iff)

lemma word_of_int_js_or: "(word_of_int (js_or a b) :: 32 word) = word_of_int a OR word_of_int b"
  unfolding js_or_def by simp

lemma js_and_js_or: "js_and (js_or a b) n = 0 \<longleftrightarrow> js_and a n = 0 \<and> js_and b n = 0"
  unfolding js_and_eq_0 word_of_int_js_or by (rule word_or_and_0)

lemma frame_inv_Suc: "frame_inv prs i msk nmsk stack \<Longrightarrow> frame_inv prs (Suc i) msk nmsk stack"
  unfolding frame_inv_def by (meson less_Suc_eq)

lemma admit_subset:
  "set (stacks (admit limit memo t)) \<union> set (maxStacks (admit limit memo t))
     \<subseteq> insert t (set (stacks memo) \<union> set (maxStacks memo))"
  by (auto simp: admit_def)

lemma memo_ok_admit:
  assumes "memo_ok prs memo" and "\<exists>ps. compatible prs (elems t) ps"
  shows "memo_ok prs (admit limit memo t)"
  using assms admit_subset [of limit memo t] unfolding memo_ok_def by blast

lemma frame_inv_extend:
  assumes inv: "frame_inv prs i msk nmsk stack"
    and i: "i < length prs"
    and nm: "js_and nmsk (nmask (prs ! i)) = 0"
    and bm: "\<not> (\<exists>s \<in> set stack. bmask_at (bmask (prs ! i)) (idx s))"
    and nx: "next \<in> set (phrasematches (prs ! i))"
    and mk: "js_and msk (mask next) = 0"
  shows "frame_inv prs (Suc i) (js_or msk (mask next)) (js_or nmsk (nmask (prs ! i)))
           (elems (targetStack_of stack msk rel adj next))"
proof -
  from inv obtain ps where c: "compatible prs stack ps" and lv: "\<forall>p \<in> set ps. fst p < i"
    and cm: "\<forall>n. js_and msk n = 0 \<longrightarrow> (\<forall>p \<in> set ps. js_and (mask (snd p)) n = 0)"
    and cn: "\<forall>n. js_and nmsk n = 0 \<longrightarrow> (\<forall>p \<in> set ps. js_and (nmask (prs ! fst p)) n = 0)"
    unfolding frame_inv_def by blast
  define ps' where "ps' = (if mask next < msk then (i, next) # ps else ps @ [(i, next)])"
  have set': "set ps' = insert (i, next) (set ps)"
    by (simp add: ps'_def)
  have fresh: "i \<notin> fst ` set ps"
    using lv by auto
  have m1: "\<forall>p \<in> set ps. js_and (mask (snd p)) (mask next) = 0"
    using cm mk by blast
  have n1: "\<forall>p \<in> set ps. js_and (nmask (prs ! fst p)) (nmask (prs ! i)) = 0"
    using cn nm by blast
  have b1: "\<forall>q \<in> set ps. \<not> bmask_at (bmask (prs ! i)) (idx (snd q))"
  proof
    fix q assume "q \<in> set ps"
    then have "snd q \<in> set stack"
      using c by (auto simp: compatible_def)
    with bm show "\<not> bmask_at (bmask (prs ! i)) (idx (snd q))" by blast
  qed
  have "map snd ps' = elems (targetStack_of stack msk rel adj next)"
    using c by (simp add: ps'_def targetStack_of_def compatible_def)
  moreover have "sourced prs ps'"
  proof -
    have "distinct (map fst ps')"
      using c fresh by (auto simp: ps'_def compatible_def sourced_def)
    then show ?thesis
      using c i nx unfolding compatible_def sourced_def set' by auto
  qed
  moreover have "masks_disjoint ps'"
    using c m1 unfolding compatible_def masks_disjoint_def set'
    by (auto simp: js_and_commute)
  moreover have "nmasks_disjoint prs ps'"
    using c n1 unfolding compatible_def nmasks_disjoint_def set'
    by (auto simp: js_and_commute)
  moreover have "bmask_clear prs ps'"
    using c b1 lv unfolding compatible_def bmask_clear_def set'
    by (auto dest: bspec)
  moreover have "\<forall>p \<in> set ps'. fst p < Suc i"
    using lv unfolding set' by (auto simp: less_Suc_eq)
  moreover have "\<forall>n. js_and (js_or msk (mask next)) n = 0 \<longrightarrow>
      (\<forall>p \<in> set ps'. js_and (mask (snd p)) n = 0)"
    using cm unfolding set' by (auto simp: js_and_js_or)
  moreover have "\<forall>n. js_and (js_or nmsk (nmask (prs ! i))) n = 0 \<longrightarrow>
      (\<forall>p \<in> set ps'. js_and (nmask (prs ! fst p)) n = 0)"
    using cn unfolding set' by (auto simp: js_and_js_or)
  ultimately show ?thesis
    unfolding frame_inv_def compatible_def by blast
qed


lemma stackable_memo_ok:
  shows "memo_ok prs memo \<Longrightarrow> frame_inv prs i msk nmsk stack \<Longrightarrow>
         memo_ok prs (stackable_rec prs limit memo i msk nmsk stack rel adj)"
    and "memo_ok prs memo \<Longrightarrow> frame_inv prs i msk nmsk stack \<Longrightarrow> i < length prs \<Longrightarrow>
         js_and nmsk (nmask (prs ! i)) = 0 \<Longrightarrow>
         \<not> (\<exists>s \<in> set stack. bmask_at (bmask (prs ! i)) (idx s)) \<Longrightarrow>
         set pms \<subseteq> set (phrasematches (prs ! i)) \<Longrightarrow>
         memo_ok prs (stackable_loop prs limit memo i msk nmsk stack rel adj pms)"
proof (induction prs limit memo i msk nmsk stack rel adj
         and prs limit memo i msk nmsk stack rel adj pms
       rule: stackable_rec_stackable_loop.induct)
  case (1 prs limit memo i msk nmsk stack rel adj)
  show ?case
  proof (cases "length prs \<le> i")
    case True
    then show ?thesis
      using "1.prems"(1) by (simp add: stackable_rec.simps)
  next
    case False
    define memo1 where "memo1 =
      (if i + 1 < length prs then stackable_rec prs limit memo (i + 1) msk nmsk stack rel adj
       else memo)"
    have ok1: "memo_ok prs memo1"
    proof (cases "i + 1 < length prs")
      case True
      have "frame_inv prs (i + 1) msk nmsk stack"
        using frame_inv_Suc [OF "1.prems"(2)] by simp
      with "1.IH"(1) [OF False True "1.prems"(1)] True show ?thesis
        by (simp add: memo1_def)
    next
      case False
      with "1.prems"(1) show ?thesis by (simp add: memo1_def)
    qed
    have unfold: "stackable_rec prs limit memo i msk nmsk stack rel adj =
        (if js_and nmsk (nmask (prs ! i)) \<noteq> 0 then memo1
         else if \<exists>s \<in> set stack. bmask_at (bmask (prs ! i)) (idx s) then memo1
         else stackable_loop prs limit memo1 i msk nmsk stack rel adj (phrasematches (prs ! i)))"
      using False by (subst stackable_rec.simps) (simp add: memo1_def Let_def)
    show ?thesis
    proof (cases "js_and nmsk (nmask (prs ! i)) \<noteq> 0
                  \<or> (\<exists>s \<in> set stack. bmask_at (bmask (prs ! i)) (idx s))")
      case True
      with ok1 unfold show ?thesis by auto
    next
      case go: False
      then have nm: "\<not> js_and nmsk (nmask (prs ! i)) \<noteq> 0"
        and bm: "\<not> (\<exists>s \<in> set stack. bmask_at (bmask (prs ! i)) (idx s))"
        by blast+
      from False have i: "i < length prs" by simp
      have "memo_ok prs (stackable_loop prs limit memo1 i msk nmsk stack rel adj
              (phrasematches (prs ! i)))"
        using "1.IH"(2) [OF False memo1_def nm bm ok1 "1.prems"(2) i _ bm] nm by simp
      with unfold nm bm show ?thesis by simp
    qed
  qed
next
  case (2 prs limit memo i msk nmsk stack rel adj)
  then show ?case by (simp add: stackable_loop.simps)
next
  case (3 prs limit memo i msk nmsk stack rel adj "next" rest)
  have rest: "set rest \<subseteq> set (phrasematches (prs ! i))"
    and nx: "next \<in> set (phrasematches (prs ! i))"
    using "3.prems"(6) by simp_all
  show ?case
  proof (cases "js_and msk (mask next) \<noteq> 0")
    case True
    from "3.IH"(1) [OF True "3.prems"(1-5) rest] True show ?thesis
      by (simp add: stackable_loop.simps)
  next
    case disjoint: False
    show ?thesis
    proof (cases "direction_gate stack msk next")
      case True
      from "3.IH"(2) [OF disjoint True "3.prems"(1-5) rest] disjoint True show ?thesis
        by (simp add: stackable_loop.simps)
    next
      case False
      define targetStack where "targetStack = targetStack_of stack msk rel adj next"
      define targetMask where "targetMask = js_or msk (mask next)"
      define targetNmask where "targetNmask = js_or nmsk (nmask (prs ! i))"
      define memo1 where "memo1 = admit limit memo targetStack"
      define memo2 where "memo2 =
        (if i + 1 < length prs
         then stackable_rec prs limit memo1 (i + 1) targetMask targetNmask
                (elems targetStack) (relev targetStack) (adjRelev targetStack)
         else memo1)"
      from disjoint have mk: "js_and msk (mask next) = 0" by simp
      have inv': "frame_inv prs (Suc i) targetMask targetNmask (elems targetStack)"
        unfolding targetMask_def targetNmask_def targetStack_def
        by (rule frame_inv_extend [OF "3.prems"(2,3,4,5) nx mk])
      then have "\<exists>ps. compatible prs (elems targetStack) ps"
        unfolding frame_inv_def by blast
      with "3.prems"(1) have ok1: "memo_ok prs memo1"
        unfolding memo1_def by (rule memo_ok_admit)
      have ok2: "memo_ok prs memo2"
      proof (cases "i + 1 < length prs")
        case True
        from "3.IH"(3) [OF disjoint False targetStack_def targetMask_def targetNmask_def
            memo1_def True ok1] inv' True
        show ?thesis by (simp add: memo2_def)
      next
        case False
        with ok1 show ?thesis by (simp add: memo2_def)
      qed
      have "memo_ok prs (stackable_loop prs limit memo2 i msk nmsk stack rel adj rest)"
        by (rule "3.IH"(4) [OF disjoint False targetStack_def targetMask_def targetNmask_def
              memo1_def memo2_def ok2 "3.prems"(2-5) rest])
      moreover have "stackable_loop prs limit memo i msk nmsk stack rel adj (next # rest) =
          stackable_loop prs limit memo2 i msk nmsk stack rel adj rest"
        using disjoint False
        by (subst stackable_loop.simps)
          (simp add: Let_def memo2_def memo1_def targetStack_def targetMask_def targetNmask_def)
      ultimately show ?thesis by simp
    qed
  qed
qed

lemma frame_inv_init: "frame_inv prs 0 0 0 []"
  unfolding frame_inv_def compatible_def sourced_def masks_disjoint_def nmasks_disjoint_def
    bmask_clear_def
  by simp

lemma memo_ok_init: "memo_ok prs \<lparr> stacks = [], maxStacks = [], maxRelev = 0 \<rparr>"
  by (simp add: memo_ok_def)

lemma stackable_elems_compatible:
  assumes "stackable_elems prs limit = Inr emitted" and "stack \<in> set emitted"
  shows "\<exists>ps. compatible prs stack ps"
proof -
  define memo where "memo = stackable_rec prs limit \<lparr> stacks = [], maxStacks = [], maxRelev = 0 \<rparr>
                              0 0 0 [] 0 0"
  have ok: "memo_ok prs memo"
    unfolding memo_def by (rule stackable_memo_ok(1) [OF memo_ok_init frame_inv_init])
  from assms(1) have "emitted = map elems (stacks memo @ maxStacks memo)"
    by (auto simp: stackable_elems_def stackable_def Let_def memo_def comp_def split: if_splits)
  with assms(2) obtain S where "S \<in> set (stacks memo) \<union> set (maxStacks memo)" "stack = elems S"
    by auto
  with ok show ?thesis
    unfolding memo_ok_def by blast
qed

lemma bmask_clear_symmetric:
  assumes "sourced prs ps" and "bmask_clear prs ps" and "bmask_symmetric prs"
    and "p \<in> set ps" and "q \<in> set ps" and "fst p \<noteq> fst q"
  shows "\<not> bmask_at (bmask (prs ! fst p)) (idx (snd q))"
proof (cases "fst q < fst p")
  case True
  with assms(2,4,5) show ?thesis
    unfolding bmask_clear_def by blast
next
  case False
  with assms(6) have "fst p < fst q" by simp
  with assms(2,4,5) have "\<not> bmask_at (bmask (prs ! fst q)) (idx (snd p))"
    unfolding bmask_clear_def by blast
  moreover from assms(1,4,5) have "prs ! fst p \<in> set prs" "prs ! fst q \<in> set prs"
    "snd p \<in> set (phrasematches (prs ! fst p))" "snd q \<in> set (phrasematches (prs ! fst q))"
    unfolding sourced_def by auto
  with assms(3) have "bmask_at (bmask (prs ! fst p)) (idx (snd q)) =
      bmask_at (bmask (prs ! fst q)) (idx (snd p))"
    unfolding bmask_symmetric_def by blast
  ultimately show ?thesis by simp
qed

lemma sourced_distinct_idx:
  assumes "sourced prs ps" and "idx_by_result prs"
  shows "distinct (map idx (map snd ps))"
proof -
  have "idx (snd p) = r_idx (prs ! fst p)" if "p \<in> set ps" for p
  proof -
    from that assms(1) have "fst p < length prs" "snd p \<in> set (phrasematches (prs ! fst p))"
      unfolding sourced_def by auto
    moreover from this(1) have "prs ! fst p \<in> set prs"
      by simp
    ultimately show ?thesis
      using assms(2) unfolding idx_by_result_def by blast
  qed
  then have eq: "map idx (map snd ps) = map (\<lambda>l. r_idx (prs ! l)) (map fst ps)"
    by simp
  have "inj_on (\<lambda>l. r_idx (prs ! l)) (set (map fst ps))"
  proof (rule inj_onI)
    fix a b assume a: "a \<in> set (map fst ps)" and b: "b \<in> set (map fst ps)"
      and e: "r_idx (prs ! a) = r_idx (prs ! b)"
    from a b assms(1) have "a < length prs" "b < length prs"
      unfolding sourced_def by auto
    moreover from assms(2) have "distinct (map r_idx prs)"
      unfolding idx_by_result_def by simp
    ultimately show "a = b"
      using e by (metis length_map nth_eq_iff_index_eq nth_map)
  qed
  moreover from assms(1) have "distinct (map fst ps)"
    unfolding sourced_def by simp
  ultimately have "distinct (map (\<lambda>l. r_idx (prs ! l)) (map fst ps))"
    by (metis distinct_map)
  then show ?thesis
    unfolding eq .
qed

lemmas stackable_eval = stackable_elems_def stackable_def stackable_rec.simps stackable_loop.simps
  admit_def direction_gate_def targetStack_of_def js_and_def js_or_def lengthPenalty_def
  or_else_def bmask_at_def Let_def res_def am_def

lemma eval_three_levels:
  "stackable_elems three_levels 10 =
     Inr [ [am 1 0.5 0, am 2 0.25 2], [am 1 0.5 0, am 4 0.25 1],
          [am 2 0.25 2, am 1 0.5 0, am 4 0.25 1] ]"
  by (simp add: three_levels_def stackable_eval)

lemma eval_one_sided_bmask:
  "stackable_elems one_sided_bmask 10 = Inr [ [am 1 0.5 0, am 2 0.5 1] ]"
  by (simp add: one_sided_bmask_def stackable_eval)

lemma eval_same_idx:
  "stackable_elems same_idx 10 = Inr [ [am 1 0.5 0, am 2 0.5 0] ]"
  by (simp add: same_idx_def stackable_eval)

lemma eval_two_weights:
  "stackable_elems two_weights 1 = Inr [ [am 1 1 0] ]"
  by (simp add: two_weights_def stackable_eval)

text \<open>
  Claim C1, as stated, fails in its last case: a candidate below \<open>maxRelev\<close> is dropped
  when \<open>maxStacks\<close> already holds \<open>limit\<close> stacks, although \<open>stacks\<close> holds fewer than
  \<open>limit\<close>. With one result holding two phrasematches of weights 1 and 0.75 and
  \<open>limit = 1\<close>, only the first is returned.
\<close>

theorem admission_counterexample:
  "0.5 < relev lesser_stack \<and> relev lesser_stack < maxRelev full_memo \<and>
   length (stacks full_memo) < 1 \<and>
   admit 1 full_memo lesser_stack = full_memo \<and>
   stackable_elems two_weights 1 = Inr [ [am 1 1 0] ]"
  using eval_two_weights
  by (simp add: admit_def full_memo_def lesser_stack_def best_stack_def)

text \<open>
  Claim C1, amended. In the admission step, for every candidate stack with
  \<open>relev > 0.5\<close>: if its relev exceeds \<open>maxRelev\<close> then, when \<open>maxStacks\<close> already holds
  at least \<open>limit\<close> stacks, \<open>maxStacks\<close> becomes \<open>stacks\<close> and \<open>maxStacks\<close> is reset to
  the new stack alone, otherwise the new stack is pushed into \<open>maxStacks\<close>, and in both
  cases \<open>maxRelev\<close> becomes its relev; if its relev equals \<open>maxRelev\<close> it is pushed into
  \<open>maxStacks\<close>; otherwise it is pushed into \<open>stacks\<close> provided \<open>maxStacks.length < limit\<close>,
  and dropped when \<open>maxStacks.length \<ge> limit\<close>.
\<close>

theorem admission_step:
  assumes "relev targetStack > 0.5"
  shows "(relev targetStack > maxRelev memo \<and> length (maxStacks memo) \<ge> limit \<longrightarrow>
            admit limit memo targetStack =
              \<lparr> stacks = maxStacks memo, maxStacks = [targetStack],
                maxRelev = relev targetStack \<rparr>) \<and>
         (relev targetStack > maxRelev memo \<and> length (maxStacks memo) < limit \<longrightarrow>
            admit limit memo targetStack =
              \<lparr> stacks = stacks memo, maxStacks = maxStacks memo @ [targetStack],
                maxRelev = relev targetStack \<rparr>) \<and>
         (relev targetStack = maxRelev memo \<longrightarrow>
            admit limit memo targetStack =
              memo\<lparr>maxStacks := maxStacks memo @ [targetStack]\<rparr>) \<and>
         (relev targetStack < maxRelev memo \<and> length (maxStacks memo) < limit \<longrightarrow>
            admit limit memo targetStack = memo\<lparr>stacks := stacks memo @ [targetStack]\<rparr>) \<and>
         (relev targetStack < maxRelev memo \<and> length (maxStacks memo) \<ge> limit \<longrightarrow>
            admit limit memo targetStack = memo)"
  using assms by (simp add: admit_def)

theorem admission_step_witness:
  "0.5 < relev lesser_stack \<and>
   admit 2 full_memo lesser_stack = full_memo\<lparr>stacks := [lesser_stack]\<rparr> \<and>
   admit 1 full_memo best_stack = full_memo\<lparr>maxStacks := [best_stack, best_stack]\<rparr>"
proof -
  have h: "0.5 < relev lesser_stack"
    by (simp add: lesser_stack_def)
  have h': "0.5 < relev best_stack"
    by (simp add: best_stack_def)
  show ?thesis
    using h admission_step [OF h, of full_memo 2] admission_step [OF h', of full_memo 1]
    by (simp add: full_memo_def lesser_stack_def best_stack_def)
qed

text \<open>
  Claim C2, as stated, fails in two of its parts. A result whose bmask names the idx of
  a later result is still stacked with it, because only the bmask of the result being
  added is looked at; and two results that carry the same idx are stacked together.
\<close>

theorem stackable_stacks_counterexample:
  "stackable_elems one_sided_bmask 10 = Inr [ [am 1 0.5 0, am 2 0.5 1] ] \<and>
   am 1 0.5 0 \<in> set (phrasematches (one_sided_bmask ! 0)) \<and>
   bmask_at (bmask (one_sided_bmask ! 0)) (idx (am 2 0.5 1)) \<and>
   stackable_elems same_idx 10 = Inr [ [am 1 0.5 0, am 2 0.5 0] ] \<and>
   idx (am 1 0.5 0) = idx (am 2 0.5 0)"
  by (simp add: eval_one_sided_bmask eval_same_idx)
    (simp add: one_sided_bmask_def res_def am_def bmask_at_def)

text \<open>
  Claim C2, amended. For every list of phrasematch results and every stack emitted by
  stackable, the elements of the stack are taken from pairwise-distinct results of the
  list, have pairwise-disjoint mask bitmasks, come from results with pairwise-disjoint
  nmask bitmasks, and contain no pair (a, b), with a taken from a later result of the
  list than b, such that the bmask of a's result has the bit of b.idx set. Their idx
  values are pairwise distinct whenever every phrasematch carries the idx of its result
  and the results of the list have pairwise-distinct idx, and no pair (a, b) at all has
  the bit of b.idx set in the bmask of a's result whenever the bmask relation of the
  list is symmetric.
\<close>

theorem stackable_stacks_compatible:
  assumes "stackable_elems prs limit = Inr emitted" and "stack \<in> set emitted"
  shows "\<exists>ps. map snd ps = stack \<and> sourced prs ps \<and> masks_disjoint ps \<and>
            nmasks_disjoint prs ps \<and> bmask_clear prs ps \<and>
            (idx_by_result prs \<longrightarrow> distinct (map idx stack)) \<and>
            (bmask_symmetric prs \<longrightarrow>
               (\<forall>p \<in> set ps. \<forall>q \<in> set ps. fst p \<noteq> fst q \<longrightarrow>
                  \<not> bmask_at (bmask (prs ! fst p)) (idx (snd q))))"
proof -
  from stackable_elems_compatible [OF assms] obtain ps where c: "compatible prs stack ps" ..
  then have "idx_by_result prs \<longrightarrow> distinct (map idx stack)"
    using sourced_distinct_idx [of prs ps] unfolding compatible_def by auto
  moreover from c have "bmask_symmetric prs \<longrightarrow>
      (\<forall>p \<in> set ps. \<forall>q \<in> set ps. fst p \<noteq> fst q \<longrightarrow>
         \<not> bmask_at (bmask (prs ! fst p)) (idx (snd q)))"
    using bmask_clear_symmetric [of prs ps] unfolding compatible_def by blast
  ultimately show ?thesis
    using c unfolding compatible_def by blast
qed

theorem stackable_stacks_compatible_witness:
  "stackable_elems three_levels 10 =
     Inr [ [am 1 0.5 0, am 2 0.25 2], [am 1 0.5 0, am 4 0.25 1],
          [am 2 0.25 2, am 1 0.5 0, am 4 0.25 1] ] \<and>
   (\<exists>ps. map snd ps = [am 2 0.25 2, am 1 0.5 0, am 4 0.25 1] \<and> sourced three_levels ps \<and>
      masks_disjoint ps \<and> nmasks_disjoint three_levels ps \<and> bmask_clear three_levels ps \<and>
      (idx_by_result three_levels \<longrightarrow>
         distinct (map idx [am 2 0.25 2, am 1 0.5 0, am 4 0.25 1])) \<and>
      (bmask_symmetric three_levels \<longrightarrow>
         (\<forall>p \<in> set ps. \<forall>q \<in> set ps. fst p \<noteq> fst q \<longrightarrow>
            \<not> bmask_at (bmask (three_levels ! fst p)) (idx (snd q)))))"
proof -
  have h2: "[am 2 0.25 2, am 1 0.5 0, am 4 0.25 1] \<in>
      set [ [am 1 0.5 0, am 2 0.25 2], [am 1 0.5 0, am 4 0.25 1],
           [am 2 0.25 2, am 1 0.5 0, am 4 0.25 1] ]"
    by simp
  show ?thesis
    using eval_three_levels stackable_stacks_compatible [OF eval_three_levels h2] by blast
qed

text \<open>
  Claim C3 does not hold of the code. The comment above the insertion says that the
  lowest mask is kept at the first position, but the new element is compared with the
  union of the masks of the stack, not with the mask at its head: with masks 1, 4 and 2
  on three consecutive levels the stack is built as [1], [1, 4] and then [2, 1, 4],
  which is emitted with mask 2 at its head.
\<close>

theorem stackable_lowest_mask_not_first:
  "stackable_elems three_levels 10 =
     Inr [ [am 1 0.5 0, am 2 0.25 2], [am 1 0.5 0, am 4 0.25 1],
          [am 2 0.25 2, am 1 0.5 0, am 4 0.25 1] ] \<and>
   mask (hd [am 2 0.25 2, am 1 0.5 0, am 4 0.25 1]) = 2 \<and>
   Min (set (map mask [am 2 0.25 2, am 1 0.5 0, am 4 0.25 1])) = 1"
  by (simp add: eval_three_levels) (simp add: am_def)

section \<open>Properties of expandFromArchetypes\<close>

lemma emit_bound_test:
  "length out < emit_bound maxOut \<Longrightarrow>
     maxOut \<le> Suc (length out) \<longleftrightarrow> emit_bound maxOut \<le> Suc (length out)"
  by (auto simp: emit_bound_def)

lemma take_append_full: "n \<le> length xs \<Longrightarrow> take n (xs @ ys) = take n xs"
  by simp

lemma expand_last_eq:
  assumes "length out < emit_bound maxOut"
  shows "expand_last stack maxOut soFar exs out =
     (emit_bound maxOut \<le> length out + length exs,
      take (emit_bound maxOut) (out @ map (\<lambda>e. expanded stack (soFar @ [e])) exs))"
  using assms
proof (induction exs arbitrary: out)
  case Nil
  then show ?case by simp
next
  case (Cons e exs)
  let ?out1 = "out @ [expanded stack (soFar @ [e])]"
  let ?rest = "map (\<lambda>e. expanded stack (soFar @ [e])) exs"
  have step: "expand_last stack maxOut soFar (e # exs) out =
      (if emit_bound maxOut \<le> Suc (length out) then (True, ?out1)
       else expand_last stack maxOut soFar exs ?out1)"
    using emit_bound_test [OF Cons.prems] by (simp add: expanded_def Let_def)
  show ?case
  proof (cases "emit_bound maxOut \<le> Suc (length out)")
    case True
    with Cons.prems have "length ?out1 = emit_bound maxOut" by simp
    then have "take (emit_bound maxOut) (?out1 @ ?rest) = ?out1"
      by (metis append_Nil2 order_refl take_all take_append_full)
    with True step show ?thesis by simp
  next
    case False
    then have "length ?out1 < emit_bound maxOut" by simp
    from Cons.IH [OF this] False step show ?thesis by simp
  qed
qed

lemma completions_last:
  assumes "matchIdx + 1 = length (elems stack)"
  shows "completions stack matchIdx soFar =
     map (\<lambda>e. expanded stack (soFar @ [e])) (exemplars (elems stack ! matchIdx))"
proof -
  from assms have "drop matchIdx (elems stack) = [elems stack ! matchIdx]"
    by (metis Cons_nth_drop_Suc Suc_eq_plus1 drop_all lessI order_refl)
  then show ?thesis
    by (simp add: completions_def comp_def)
qed

lemma completions_step:
  assumes "matchIdx < length (elems stack)"
  shows "completions stack matchIdx soFar =
     concat (map (\<lambda>e. completions stack (matchIdx + 1) (soFar @ [e]))
               (exemplars (elems stack ! matchIdx)))"
proof -
  from assms have "drop matchIdx (elems stack) =
      elems stack ! matchIdx # drop (matchIdx + 1) (elems stack)"
    by (simp add: Cons_nth_drop_Suc)
  then show ?thesis
    by (simp add: completions_def map_concat comp_def)
qed

lemma expand_inner_eq:
  shows "matchIdx < length (elems stack) \<Longrightarrow> length out < emit_bound maxOut \<Longrightarrow>
     expandFromArchetypesInner stack maxOut matchIdx soFar out =
       Inr (emit_bound maxOut \<le> length out + length (completions stack matchIdx soFar),
            take (emit_bound maxOut) (out @ completions stack matchIdx soFar))"
    and "matchIdx + 1 < length (elems stack) \<Longrightarrow> length out < emit_bound maxOut \<Longrightarrow>
     expand_next stack maxOut matchIdx soFar exs out =
       Inr (emit_bound maxOut \<le> length out +
              length (concat (map (\<lambda>e. completions stack (matchIdx + 1) (soFar @ [e])) exs)),
            take (emit_bound maxOut)
              (out @ concat (map (\<lambda>e. completions stack (matchIdx + 1) (soFar @ [e])) exs)))"
proof (induction stack maxOut matchIdx soFar out and stack maxOut matchIdx soFar exs out
       rule: expandFromArchetypesInner_expand_next.induct)
  case (1 stack maxOut matchIdx soFar out)
  show ?case
  proof (cases "matchIdx + 1 = length (elems stack)")
    case True
    with "1.prems" show ?thesis
      by (subst expandFromArchetypesInner.simps)
        (simp add: expand_last_eq completions_last)
  next
    case False
    with "1.prems"(1) have lt: "matchIdx + 1 < length (elems stack)" by simp
    have nle: "\<not> length (elems stack) \<le> matchIdx"
      using "1.prems"(1) by simp
    from "1.IH" [OF nle False lt "1.prems"(2)] False "1.prems"(1) show ?thesis
      by (subst expandFromArchetypesInner.simps)
        (simp add: completions_step [OF "1.prems"(1)])
  qed
next
  case (2 stack maxOut matchIdx soFar out)
  then show ?case
    by (simp add: expand_next.simps)
next
  case (3 stack maxOut matchIdx soFar exemplar rest out)
  let ?M = "emit_bound maxOut"
  let ?P = "completions stack (matchIdx + 1) (soFar @ [exemplar])"
  let ?Q = "concat (map (\<lambda>e. completions stack (matchIdx + 1) (soFar @ [e])) rest)"
  have inner: "expandFromArchetypesInner stack maxOut (matchIdx + 1) (soFar @ [exemplar]) out =
      Inr (?M \<le> length out + length ?P, take ?M (out @ ?P))"
    by (rule "3.IH"(1) [OF "3.prems"])
  show ?case
  proof (cases "?M \<le> length out + length ?P")
    case True
    then have "take ?M (out @ ?P @ ?Q) = take ?M (out @ ?P)"
      using take_append_full [of ?M "out @ ?P" ?Q] by simp
    with True inner show ?thesis
      by (subst expand_next.simps) simp
  next
    case False
    then have lt: "length (out @ ?P) < ?M"
      by simp
    then have out1: "take ?M (out @ ?P) = out @ ?P"
      by simp
    have "expand_next stack maxOut matchIdx soFar rest (out @ ?P) =
        Inr (?M \<le> length (out @ ?P) + length ?Q, take ?M ((out @ ?P) @ ?Q))"
      by (rule "3.IH"(2) [OF inner _ _ "3.prems"(1) lt]) (use False out1 in simp_all)
    with False inner out1 show ?thesis
      by (subst expand_next.simps) (simp add: add.assoc)
  qed
qed


lemma completions_0: "completions stack 0 [] = exemplar_product stack"
  by (simp add: completions_def exemplar_product_def expanded_def)

lemma expand_stacks_eq:
  assumes "\<forall>stack \<in> set stks. elems stack \<noteq> []" and "length out < emit_bound maxOut"
  shows "expand_stacks stks maxOut out =
     Inr (take (emit_bound maxOut) (out @ concat (map exemplar_product stks)))"
  using assms
proof (induction stks arbitrary: out)
  case Nil
  then show ?case by simp
next
  case (Cons stack stks)
  let ?M = "emit_bound maxOut"
  let ?P = "exemplar_product stack"
  let ?Q = "concat (map exemplar_product stks)"
  from Cons.prems(1) have "0 < length (elems stack)" by simp
  from expand_inner_eq(1) [OF this Cons.prems(2), of "[]"]
  have inner: "expandFromArchetypesInner stack maxOut 0 [] out =
      Inr (?M \<le> length out + length ?P, take ?M (out @ ?P))"
    by (simp add: completions_0)
  show ?case
  proof (cases "?M \<le> length out + length ?P")
    case True
    then have "take ?M (out @ ?P @ ?Q) = take ?M (out @ ?P)"
      using take_append_full [of ?M "out @ ?P" ?Q] by simp
    with True inner show ?thesis by simp
  next
    case False
    then have lt: "length (out @ ?P) < ?M"
      by simp
    then have out1: "take ?M (out @ ?P) = out @ ?P"
      by simp
    from Cons.prems(1) have "\<forall>stack \<in> set stks. elems stack \<noteq> []" by simp
    from Cons.IH [OF this lt] False inner out1 show ?thesis by simp
  qed
qed

lemma length_exemplar_product:
  "length (exemplar_product stack) = prod_list (map (\<lambda>a. length (exemplars a)) (elems stack))"
proof -
  have "length (product_lists xss) = prod_list (map length xss)" for xss :: "phrasematch list list"
    by (induction xss) (simp_all add: length_concat comp_def sum_list_triv)
  from this [of "map exemplars (elems stack)"] show ?thesis
    by (simp add: exemplar_product_def comp_def)
qed

text \<open>The expansion of non-empty stacks, whatever the limit: the first
  \<open>max(maxOut, 1)\<close> stacks of the concatenated products.\<close>

lemma expand_general:
  assumes "\<forall>stack \<in> set arch_stacks. elems stack \<noteq> []"
  shows "expandFromArchetypes arch_stacks maxOut =
           Inr (take (max 1 maxOut) (concat (map exemplar_product arch_stacks)))"
proof -
  have "length ([] :: phrasematch stack list) < emit_bound maxOut"
    by (simp add: emit_bound_def)
  from expand_stacks_eq [OF assms this] show ?thesis
    by (simp add: expandFromArchetypes_def emit_bound_def)
qed

lemma length_concat_products:
  "length (concat (map exemplar_product arch_stacks)) =
     sum_list (map (\<lambda>stack. prod_list (map (\<lambda>a. length (exemplars a)) (elems stack)))
                 arch_stacks)"
  by (simp add: length_concat comp_def length_exemplar_product)

text \<open>
  Claim C9. For every list of selected stacks of archetypes, that is, of at most
  \<open>maxOut\<close> non-empty stacks as \<open>spatialmatch\<close> passes them (lines 43-44), expansion
  enumerates the cartesian product over the exemplars lists of each stack, stack after
  stack, in stack order and depth-first position by position, each expanded stack
  carrying the relev and adjRelev of its archetype stack: the output is the first
  \<open>maxOut\<close> stacks of the concatenated products, so at most \<open>maxOut\<close> stacks are emitted
  in all cases. The product of a stack has as many stacks as the product of its
  exemplars-list sizes, and when these counts together do not exceed \<open>maxOut\<close> the
  expanded stacks are exactly the cartesian products.
\<close>

theorem expand_cartesian_product:
  assumes "\<forall>stack \<in> set arch_stacks. elems stack \<noteq> []"
    and "length arch_stacks \<le> maxOut"
  shows "expandFromArchetypes arch_stacks maxOut =
           Inr (take maxOut (concat (map exemplar_product arch_stacks))) \<and>
         length (take maxOut (concat (map exemplar_product arch_stacks))) \<le> maxOut \<and>
         (\<forall>stack \<in> set arch_stacks.
            length (exemplar_product stack) =
              prod_list (map (\<lambda>a. length (exemplars a)) (elems stack)) \<and>
            (\<forall>S \<in> set (exemplar_product stack).
               relev S = relev stack \<and> adjRelev S = adjRelev stack \<and>
               elems S \<in> set (product_lists (map exemplars (elems stack))))) \<and>
         (sum_list (map (\<lambda>stack. prod_list (map (\<lambda>a. length (exemplars a)) (elems stack)))
                      arch_stacks) \<le> maxOut \<longrightarrow>
            expandFromArchetypes arch_stacks maxOut =
              Inr (concat (map exemplar_product arch_stacks)) \<and>
            length (concat (map exemplar_product arch_stacks)) =
              sum_list (map (\<lambda>stack. prod_list (map (\<lambda>a. length (exemplars a)) (elems stack)))
                          arch_stacks))"
proof -
  have cut: "take (max 1 maxOut) (concat (map exemplar_product arch_stacks)) =
      take maxOut (concat (map exemplar_product arch_stacks))"
  proof (cases "maxOut = 0")
    case True
    with assms(2) show ?thesis by simp
  next
    case False
    then have "max 1 maxOut = maxOut" by simp
    then show ?thesis by simp
  qed
  have run: "expandFromArchetypes arch_stacks maxOut =
      Inr (take maxOut (concat (map exemplar_product arch_stacks)))"
    using expand_general [OF assms(1), of maxOut] cut by simp
  have each: "\<forall>S \<in> set (exemplar_product stack).
      relev S = relev stack \<and> adjRelev S = adjRelev stack \<and>
      elems S \<in> set (product_lists (map exemplars (elems stack)))"
    for stack :: "('a archetype_scheme, 'b) stack_scheme"
    by (auto simp: exemplar_product_def)
  have whole: "sum_list (map (\<lambda>stack. prod_list (map (\<lambda>a. length (exemplars a)) (elems stack)))
                      arch_stacks) \<le> maxOut \<longrightarrow>
            expandFromArchetypes arch_stacks maxOut =
              Inr (concat (map exemplar_product arch_stacks)) \<and>
            length (concat (map exemplar_product arch_stacks)) =
              sum_list (map (\<lambda>stack. prod_list (map (\<lambda>a. length (exemplars a)) (elems stack)))
                          arch_stacks)"
    using run length_concat_products [of arch_stacks] by simp
  have bound: "length (take maxOut (concat (map exemplar_product arch_stacks))) \<le> maxOut"
    by simp
  from run bound each whole show ?thesis
    using length_exemplar_product by blast
qed

theorem expand_cartesian_product_witness:
  "elems pair_stack \<noteq> [] \<and> length [pair_stack] \<le> (3::nat) \<and>
   expandFromArchetypes [pair_stack] 3 =
     Inr [chosen [pm 1 0.5 6 0 one_token, pm 2 0.5 6 1 one_token],
          chosen [pm 1 0.5 6 0 one_token, pm 2 0.5 6 1 two_tokens],
          chosen [pm 1 0.5 6 0 two_tokens, pm 2 0.5 6 1 one_token] ] \<and>
   length (exemplar_product pair_stack) = 4 \<and>
   expandFromArchetypes [pair_stack] 4 =
     Inr [chosen [pm 1 0.5 6 0 one_token, pm 2 0.5 6 1 one_token],
          chosen [pm 1 0.5 6 0 one_token, pm 2 0.5 6 1 two_tokens],
          chosen [pm 1 0.5 6 0 two_tokens, pm 2 0.5 6 1 one_token],
          chosen [pm 1 0.5 6 0 two_tokens, pm 2 0.5 6 1 two_tokens] ]"
proof -
  have h: "\<forall>stack \<in> set [pair_stack]. elems stack \<noteq> []"
    by (simp add: pair_stack_def)
  have l3: "length [pair_stack] \<le> (3::nat)" and l4: "length [pair_stack] \<le> (4::nat)"
    by simp_all
  show ?thesis
    using h expand_cartesian_product [OF h l3] expand_cartesian_product [OF h l4]
    by (simp add: exemplar_product_def pair_stack_def chosen_def arch_def)
qed

section \<open>Properties of rebalance\<close>

lemma split1_count_append [simp]: "split1_count (xs @ ys) = split1_count xs + split1_count ys"
  by (simp add: split1_count_def)

lemma split1_count_digits2: "split1_count (digits2 n) = bitcount n"
proof (induction n rule: digits2.induct)
  case (1 n)
  show ?case
  proof (cases "n < 2")
    case True
    then have "n = 0 \<or> n = 1" by auto
    then show ?thesis
      by (auto simp: digits2.simps [of n] bitcount.simps [of n] bitcount.simps [of 0] split1_count_def)
  next
    case False
    then have "split1_count (digits2 n) = bitcount (n div 2) + n mod 2"
      using "1.IH" by (subst digits2.simps) (auto simp: split1_count_def)
    with False show ?thesis
      by (subst bitcount.simps) simp
  qed
qed

lemma filter_bit_upt:
  "length (filter (bit (n::nat)) [0..<k]) = bitcount (n mod 2 ^ k)"
proof (induction k arbitrary: n)
  case 0
  show ?case by (simp add: bitcount.simps [of 0])
next
  case (Suc k)
  have "[0..<Suc k] = 0 # map Suc [0..<k]"
    unfolding map_Suc_upt by (rule upt_conv_Cons) simp
  then have "length (filter (bit n) [0..<Suc k]) =
      length (filter (bit n) (0 # map Suc [0..<k]))"
    by (simp only:)
  also have "\<dots> = of_bool (odd n) + length (filter (bit (n div 2)) [0..<k])"
    by (simp add: filter_map comp_def bit_Suc bit_0)
  also have "\<dots> = n mod 2 + bitcount ((n div 2) mod 2 ^ k)"
    by (simp only: Suc.IH mod_2_eq_odd)
  also have "\<dots> = bitcount (n mod 2 ^ Suc k)"
  proof -
    have a: "(n mod 2 ^ Suc k) div 2 = (n div 2) mod 2 ^ k"
      by (simp add: mod_mult2_eq)
    have b: "(n mod 2 ^ Suc k) mod 2 = n mod 2"
      by (simp add: mod_mod_cancel)
    show ?thesis
    proof (cases "n mod 2 ^ Suc k = 0")
      case True
      with a b have "n mod 2 = 0" "(n div 2) mod 2 ^ k = 0"
        by (simp_all only: div_0 mod_0)
      with True show ?thesis
        by (simp only: bitcount.simps [of 0] if_True add_0)
    next
      case False
      then show ?thesis
        by (subst (2) bitcount.simps) (simp only: a b if_False)
    qed
  qed
  finally show ?case .
qed

lemma popcount_unat: "popcount w = bitcount (unat w)"
proof -
  have "filter (bit w) [0..<32] = filter (bit (unat w)) [0..<32]"
    by (rule filter_cong) (metis bit_unsigned_iff possible_bit)+
  moreover have "unat w mod 2 ^ 32 = unat w"
    using unsigned_less [of w, where 'a = nat] by simp
  ultimately show ?thesis
    unfolding popcount_def by (simp add: filter_bit_upt)
qed

lemma sint_uint_clear: "\<not> bit (w :: 32 word) 31 \<Longrightarrow> sint w = uint w"
proof (rule bit_eqI)
  fix n
  assume c: "\<not> bit w 31"
  show "bit (sint w) n \<longleftrightarrow> bit (uint w) n"
  proof (cases "n < 31")
    case True
    then show ?thesis by (simp add: bit_sint_iff bit_uint_iff)
  next
    case False
    have "\<not> bit w n"
    proof
      assume b: "bit w n"
      then have "n < 32"
        using bit_imp_le_length [of w n] by simp
      with False have "n = 31" by simp
      with b c show False by simp
    qed
    with c show ?thesis by (simp add: bit_sint_iff bit_uint_iff)
  qed
qed

lemma stackMask_union: "foldl js_or 0 ms = sint (mask_union ms)"
proof -
  have "foldl js_or (sint w) ms = sint (foldr (OR) (map word_of_int ms) w)" for w :: "32 word"
  proof (induction ms arbitrary: w)
    case Nil
    show ?case by simp
  next
    case (Cons m ms)
    have step: "js_or (sint w) m = sint (w OR word_of_int m)"
      by (simp add: js_or_def)
    have comm: "foldr (OR) (map word_of_int ms) (w OR word_of_int m) =
        word_of_int m OR foldr (OR) (map word_of_int ms) w"
      by (induction ms) (simp_all add: or.left_commute or.commute)
    show ?case
      by (simp only: foldl_Cons step Cons.IH comm list.map foldr_Cons comp_apply)
  qed
  from this [of 0] show ?thesis
    by (simp add: mask_union_def)
qed


lemma toString2_nonneg_sint:
  assumes "\<not> bit (w :: 32 word) 31"
  shows "split1_count (toString2 (sint w)) = popcount w"
proof -
  from assms have "sint w = uint w"
    by (rule sint_uint_clear)
  then have "sint w \<ge> 0" "nat (sint w) = unat w"
    by simp_all
  then show ?thesis
    by (simp add: toString2_def split1_count_digits2 popcount_unat)
qed

lemma foldl_add_sum_list: "foldl (+) a xs = a + sum_list xs" for a :: real
  by (induction xs arbitrary: a) simp_all

lemma garbage_popcount:
  assumes "\<not> bit (mask_union (map mask (elems stack))) 31"
  shows "garbage_of query stack =
     (if popcount (mask_union (map mask (elems stack))) = length query then 0 else 1)"
  using toString2_nonneg_sint [OF assms]
  by (auto simp: garbage_of_def stackMask_of_def stackMask_union)

text \<open>
  Where the OR of the masks leaves bit 31 clear, the digit count is the popcount and
  rebalance computes the weights and the relev by the formulas of lines 505-521.
\<close>

lemma rebalance_formula:
  assumes "\<not> bit (mask_union (map mask (elems stack))) 31"
  shows "let garbage = (if popcount (mask_union (map mask (elems stack))) = length query
                        then 0 else 1 :: nat);
             totalLengthBonus = 0.01 * real (garbage + length (elems stack));
             weightPerMatch = 1 / real (garbage + length (elems stack)) - 0.01;
             newWeight = (\<lambda>m. round_to ((weightPerMatch + totalLengthBonus * weight m)
                                         * editMultiplier m) 8)
         in rebalance round_to query stack =
              \<lparr> elems = map (\<lambda>m. m\<lparr>weight := newWeight m\<rparr>) (elems stack),
                relev = min (round_to (sum_list (map newWeight (elems stack))) 8) 1 \<rparr>"
  by (simp add: rebalance_def Let_def garbage_popcount [OF assms] foldl_add_sum_list comp_def)

text \<open>
  Claim C4 does not hold of the code. Line 505 counts the set bits of \<open>stackMask\<close> as the
  \<open>1\<close> characters of \<open>stackMask.toString(2)\<close>, but \<open>stackMask\<close> is a signed 32-bit
  value: with bit 31 set it is negative and the string is a sign followed by the digits
  of its magnitude. For a query of 32 tokens that one element covers entirely (mask
  \<open>-1\<close>, the OR of bits 0 to 31), the popcount equals the token count, so \<open>garbage\<close>
  should be 0 and the new weight \<open>round8((1/1 - 0.01 + 0.01 * 1 * 1) * 1) = 1\<close>; the
  code finds a single \<open>1\<close> in \<open>"-1"\<close>, takes \<open>garbage = 1\<close> and returns weight and relev
  0.51.
\<close>

theorem rebalance_miscounts_bit31:
  "popcount (mask_union (map mask (elems all_tokens_stack))) = length q32 \<and>
   garbage_of q32 all_tokens_stack = 1 \<and>
   map weight (elems (rebalance round_half_up q32 all_tokens_stack)) = [0.51] \<and>
   relev (rebalance round_half_up q32 all_tokens_stack) = 0.51 \<and>
   round_half_up ((1 / real (0 + 1) - 0.01 + 0.01 * real (0 + 1) * 1) * 1) 8 = 1"
  by (simp add: all_tokens_stack_def q32_def pm_def garbage_of_def stackMask_of_def js_or_def
      toString2_def digits2.simps split1_count_def rebalance_def Let_def round_half_up_def
      mask_union_def popcount_def)

section \<open>Properties of the Spatialmatch constructor\<close>

text \<open>
  Claim C8. For every constructed Spatialmatch, its scoredist equals
  \<open>covers[0].scoredist\<close> when partialNumber is false and 300 times
  \<open>covers[0].scoredist\<close> when partialNumber is true; the construction from the same
  arguments with the other value of partialNumber succeeds as well, with the same
  covers, relev and address, and the scoredist of the one with \<open>partialNumber = true\<close> is
  300 times that of the other.
\<close>

theorem spatialmatch_scoredist:
  assumes "Spatialmatch decode cacheSpatialmatch stackByIdx addressDataByIdx partialNum = Inr built"
  shows "covers built \<noteq> [] \<and> sm_partialNumber built = partialNum \<and>
     sm_scoredist built =
       (if partialNum then 300 * c_scoredist (hd (covers built))
        else c_scoredist (hd (covers built))) \<and>
     (\<exists>other. Spatialmatch decode cacheSpatialmatch stackByIdx addressDataByIdx (\<not> partialNum)
                 = Inr other \<and>
        covers other = covers built \<and> sm_relev other = sm_relev built \<and>
        sm_address other = sm_address built \<and>
        (if partialNum then sm_scoredist built = 300 * sm_scoredist other
         else sm_scoredist other = 300 * sm_scoredist built))"
  using assms
  by (auto simp: Spatialmatch_def split: sum.splits list.splits prod.splits)

lemma eval_one_cover:
  "Spatialmatch times_factor one_cover [(0, pm 1 1 6 0 one_token)] [] True =
     Inr \<lparr> sm_relev = 1, covers = [built_cover], sm_partialNumber = True, sm_address = None,
           sm_scoredist = 600 \<rparr>"
  by (simp add: Spatialmatch_def one_cover_def cc_def Cover_def pm_def one_token_def
      times_factor_def built_cover_def)

theorem spatialmatch_scoredist_witness:
  "Spatialmatch times_factor one_cover [(0, pm 1 1 6 0 one_token)] [] True =
     Inr \<lparr> sm_relev = 1, covers = [built_cover], sm_partialNumber = True, sm_address = None,
           sm_scoredist = 600 \<rparr> \<and>
   c_scoredist built_cover = 2 \<and>
   (\<exists>other. Spatialmatch times_factor one_cover [(0, pm 1 1 6 0 one_token)] [] False = Inr other \<and>
      600 = 300 * sm_scoredist other)"
  using eval_one_cover spatialmatch_scoredist [OF eval_one_cover]
  by (auto simp: built_cover_def)

section \<open>Properties of the deduplication pass\<close>

lemma kinds_exclusive:
  "\<not> (descending s \<and> ascending s)" "\<not> (descending s \<and> single_cover s)" "\<not> (ascending s \<and> single_cover s)"
  by (auto simp: descending_def ascending_def single_cover_def)

lemma marks_emit:
  assumes "marks kind done emitted" and "kind s" and "first_tmpid s \<notin> done"
  shows "marks kind (insert (first_tmpid s) done) (emitted @ [s])"
proof -
  from assms(1,3) have none: "filter (\<lambda>x. kind x \<and> first_tmpid x = first_tmpid s) emitted = []"
    unfolding marks_def by (auto simp: filter_empty_conv)
  have "length (filter (\<lambda>x. kind x \<and> first_tmpid x = t) (emitted @ [s])) \<le> 1" for t
  proof (cases "t = first_tmpid s")
    case True
    with none show ?thesis by simp
  next
    case False
    with assms(1) show ?thesis unfolding marks_def by auto
  qed
  moreover have "t \<in> insert (first_tmpid s) done \<longleftrightarrow>
      (\<exists>x \<in> set (emitted @ [s]). kind x \<and> first_tmpid x = t)" for t
    using assms(1,2) unfolding marks_def by auto
  ultimately show ?thesis
    unfolding marks_def by blast
qed

lemma marks_other:
  assumes "marks kind done emitted" and "\<not> kind s"
  shows "marks kind done (emitted @ [s])"
  using assms unfolding marks_def by auto

text \<open>The four outcomes of one round.\<close>

lemma dedup_step_outcome:
  assumes "dedup_step st s = Inr st'"
  shows "covers s \<noteq> [] \<and>
    (if descending s \<and> first_tmpid s \<notin> doneDescending st then
       doneDescending st' = insert (first_tmpid s) (doneDescending st) \<and>
       doneAscending st' = doneAscending st \<and> doneSingle st' = doneSingle st \<and>
       filteredSpatialmatches st' = filteredSpatialmatches st @ [s]
     else if ascending s \<and> first_tmpid s \<notin> doneAscending st then
       doneDescending st' = doneDescending st \<and>
       doneAscending st' = insert (first_tmpid s) (doneAscending st) \<and>
       doneSingle st' = doneSingle st \<and>
       filteredSpatialmatches st' = filteredSpatialmatches st @ [s]
     else if single_cover s \<and> first_tmpid s \<notin> doneAscending st \<and>
             first_tmpid s \<notin> doneDescending st \<and> first_tmpid s \<notin> doneSingle st then
       doneDescending st' = doneDescending st \<and> doneAscending st' = doneAscending st \<and>
       doneSingle st' = insert (first_tmpid s) (doneSingle st) \<and>
       filteredSpatialmatches st' = filteredSpatialmatches st @ [s]
     else
       doneDescending st' = doneDescending st \<and> doneAscending st' = doneAscending st \<and>
       doneSingle st' = doneSingle st \<and>
       filteredSpatialmatches st' = filteredSpatialmatches st)"
proof (cases "covers s")
  case Nil
  with assms show ?thesis by (simp add: dedup_step_def)
next
  case (Cons c0 others)
  show ?thesis
  proof (cases others)
    case Nil
    with Cons assms show ?thesis
      by (auto simp: dedup_step_def Let_def descending_def ascending_def single_cover_def
          first_tmpid_def split: if_splits)
  next
    case (Cons c1 more')
    with \<open>covers s = c0 # others\<close> assms show ?thesis
      by (auto simp: dedup_step_def Let_def descending_def ascending_def single_cover_def
          first_tmpid_def split: if_splits)
  qed
qed

lemma dedup_step_inv:
  assumes "dedup_step st s = Inr st'" and "dedup_inv st"
  shows "dedup_inv st'"
proof -
  note o = dedup_step_outcome [OF assms(1)]
  from assms(2) have d: "marks descending (doneDescending st) (filteredSpatialmatches st)"
    and a: "marks ascending (doneAscending st) (filteredSpatialmatches st)"
    and g: "marks single_cover (doneSingle st) (filteredSpatialmatches st)"
    unfolding dedup_inv_def by simp_all
  consider (desc) "descending s \<and> first_tmpid s \<notin> doneDescending st"
    | (asc) "\<not> (descending s \<and> first_tmpid s \<notin> doneDescending st)"
            "ascending s \<and> first_tmpid s \<notin> doneAscending st"
    | (one) "\<not> (descending s \<and> first_tmpid s \<notin> doneDescending st)"
            "\<not> (ascending s \<and> first_tmpid s \<notin> doneAscending st)"
            "single_cover s \<and> first_tmpid s \<notin> doneAscending st \<and>
             first_tmpid s \<notin> doneDescending st \<and> first_tmpid s \<notin> doneSingle st"
    | (none) "\<not> (descending s \<and> first_tmpid s \<notin> doneDescending st)"
            "\<not> (ascending s \<and> first_tmpid s \<notin> doneAscending st)"
            "\<not> (single_cover s \<and> first_tmpid s \<notin> doneAscending st \<and>
             first_tmpid s \<notin> doneDescending st \<and> first_tmpid s \<notin> doneSingle st)"
    by blast
  then show ?thesis
  proof cases
    case desc
    with o kinds_exclusive [of s] marks_emit [OF d] marks_other [OF a] marks_other [OF g]
    show ?thesis unfolding dedup_inv_def by auto
  next
    case asc
    with o kinds_exclusive [of s] marks_emit [OF a] marks_other [OF d] marks_other [OF g]
    show ?thesis unfolding dedup_inv_def by auto
  next
    case one
    with o kinds_exclusive [of s] marks_emit [OF g] marks_other [OF d] marks_other [OF a]
    show ?thesis unfolding dedup_inv_def by auto
  next
    case none
    with o d a g show ?thesis unfolding dedup_inv_def by auto
  qed
qed

lemma dedup_loop_inv:
  assumes "dedup_loop st xs = Inr st'" and "dedup_inv st"
  shows "dedup_inv st' \<and>
     doneDescending st \<subseteq> doneDescending st' \<and> doneAscending st \<subseteq> doneAscending st' \<and>
     (\<forall>s \<in> set xs. descending s \<longrightarrow> first_tmpid s \<in> doneDescending st') \<and>
     (\<forall>s \<in> set xs. ascending s \<longrightarrow> first_tmpid s \<in> doneAscending st') \<and>
     set (filteredSpatialmatches st') \<subseteq> set (filteredSpatialmatches st) \<union> set xs"
  using assms
proof (induction xs arbitrary: st)
  case Nil
  then show ?case by simp
next
  case (Cons x xs)
  from Cons.prems(1) obtain st1 where step: "dedup_step st x = Inr st1"
    and rest: "dedup_loop st1 xs = Inr st'"
    by (auto split: sum.splits)
  note o = dedup_step_outcome [OF step]
  have inv1: "dedup_inv st1"
    by (rule dedup_step_inv [OF step Cons.prems(2)])
  note ih = Cons.IH [OF rest inv1]
  have d: "doneDescending st \<subseteq> doneDescending st1" "doneAscending st \<subseteq> doneAscending st1"
    using o by (auto split: if_splits)
  have dx: "descending x \<longrightarrow> first_tmpid x \<in> doneDescending st1"
    using o by (auto split: if_splits)
  have ax: "ascending x \<longrightarrow> first_tmpid x \<in> doneAscending st1"
    using o kinds_exclusive [of x] by (auto split: if_splits)
  have f: "set (filteredSpatialmatches st1) \<subseteq> set (filteredSpatialmatches st) \<union> {x}"
    using o by (auto split: if_splits)
  from ih d dx ax f show ?case
    by (simp add: subset_iff) blast
qed

lemma dedup_inv_init: "dedup_inv dedup_init"
  by (simp add: dedup_inv_def marks_def dedup_init_def)

lemma eval_both_directions:
  "dedup_results both_directions = Inr [sm [cv 2 7, cv 1 3] 1, sm [cv 2 7, cv 3 9] 1]"
  by (simp add: dedup_results_def dedup_pass_def dedup_init_def dedup_step_def Let_def
      both_directions_def sm_def cv_def)

text \<open>
  Claim C7. For every list of spatialmatches, sorted or not, on which the
  deduplication pass completes, and every tmpid, the pass emits at most one descending
  result (\<open>covers[0].idx > covers[1].idx\<close>), at most one ascending result
  (\<open>covers[0].idx < covers[1].idx\<close>) and at most one single-cover result whose
  \<open>covers[0].tmpid\<close> is that tmpid. When the list holds a descending result with that
  tmpid, one is emitted, and likewise for an ascending one, so a descending and an
  ascending result with the same tmpid both survive, while a second descending result
  with that tmpid does not. Every emitted result is one of the list.
\<close>

theorem dedup_one_per_direction:
  assumes "dedup_results combined = Inr emitted"
  shows "length (filter (\<lambda>s. descending s \<and> first_tmpid s = t) emitted) \<le> 1 \<and>
         length (filter (\<lambda>s. ascending s \<and> first_tmpid s = t) emitted) \<le> 1 \<and>
         length (filter (\<lambda>s. single_cover s \<and> first_tmpid s = t) emitted) \<le> 1 \<and>
         ((\<exists>s \<in> set combined. descending s \<and> first_tmpid s = t) \<longrightarrow>
            (\<exists>s \<in> set emitted. descending s \<and> first_tmpid s = t)) \<and>
         ((\<exists>s \<in> set combined. ascending s \<and> first_tmpid s = t) \<longrightarrow>
            (\<exists>s \<in> set emitted. ascending s \<and> first_tmpid s = t)) \<and>
         set emitted \<subseteq> set combined"
proof -
  from assms obtain st where run: "dedup_loop dedup_init combined = Inr st"
    and em: "emitted = filteredSpatialmatches st"
    by (cases "dedup_pass combined") (auto simp: dedup_results_def dedup_pass_def)
  note r = dedup_loop_inv [OF run dedup_inv_init]
  from r have inv: "dedup_inv st" by simp
  have "set emitted \<subseteq> set combined"
    using r by (simp add: em dedup_init_def)
  moreover have "(\<exists>s \<in> set combined. descending s \<and> first_tmpid s = t) \<longrightarrow>
            (\<exists>s \<in> set emitted. descending s \<and> first_tmpid s = t)"
    using r inv unfolding dedup_inv_def marks_def em by blast
  moreover have "(\<exists>s \<in> set combined. ascending s \<and> first_tmpid s = t) \<longrightarrow>
            (\<exists>s \<in> set emitted. ascending s \<and> first_tmpid s = t)"
    using r inv unfolding dedup_inv_def marks_def em by blast
  ultimately show ?thesis
    using inv unfolding dedup_inv_def marks_def em by blast
qed

theorem dedup_one_per_direction_witness:
  "dedup_results both_directions = Inr [sm [cv 2 7, cv 1 3] 1, sm [cv 2 7, cv 3 9] 1] \<and>
   descending (sm [cv 2 7, cv 1 3] 1) \<and> ascending (sm [cv 2 7, cv 3 9] 1) \<and>
   descending (sm [cv 2 7, cv 0 5] 0.5) \<and>
   length (filter (\<lambda>s. descending s \<and> first_tmpid s = 7)
             [sm [cv 2 7, cv 1 3] 1, sm [cv 2 7, cv 3 9] 1]) \<le> 1"
  using eval_both_directions dedup_one_per_direction [OF eval_both_directions, of 7]
  by (simp add: descending_def ascending_def sm_def cv_def)

section \<open>Properties of spatialmatch\<close>

text \<open>
  Claim C10. For every query and options (and whatever the external collaborators do),
  spatialmatch on an empty list of phrasematch results completes without error: no
  stack is built, no coalesce call is issued, and the output is
  \<open>{ results: [], sets: {}, waste: [] }\<close>.
\<close>

theorem spatialmatch_empty:
  "build_stacks [] opts = Inr [] \<and>
   spatialmatch ev query [] opts =
     ([], Inr \<lparr> results = [], out_sets = Map.empty, waste = [] \<rparr>)"
  by (simp add: spatialmatch_def build_stacks_def coalesceFinalize_def dedup_pass_def
      dedup_init_def sort_by_def)

end
